theory Spec2Isabelle
  imports Complex_Main "HOL-Library.Multiset"
begin

section \<open>Values of the embedding API (app.py)\<close>

text \<open>
  The ranking code of \<^verbatim>\<open>app.py\<close> is embedded function by function. Python floats are
  modelled by the reals; the one non-real value that the code's own arithmetic produces
  from real inputs, the quotient \<^verbatim>\<open>0.0 / 0\<close> of NumPy (a warning, not an exception), is
  kept as the explicit value \<open>NaN\<close>. Exceptions are values of the type \<open>error\<close> and every
  function that can raise returns \<open>error + 'a\<close>.
\<close>

datatype error = ValueError | TypeError | IndexError | RuntimeError

definition bind_err :: "error + 'a \<Rightarrow> ('a \<Rightarrow> error + 'b) \<Rightarrow> error + 'b" where
  "bind_err m f = (case m of Inl e \<Rightarrow> Inl e | Inr x \<Rightarrow> f x)"

fun mapM_err :: "('a \<Rightarrow> error + 'b) \<Rightarrow> 'a list \<Rightarrow> error + 'b list" where
  "mapM_err f [] = Inr []"
| "mapM_err f (x # xs) =
     bind_err (f x) (\<lambda>y. bind_err (mapM_err f xs) (\<lambda>ys. Inr (y # ys)))"

fun foldM_err :: "('s \<Rightarrow> 'a \<Rightarrow> error + 's) \<Rightarrow> 'a list \<Rightarrow> 's \<Rightarrow> error + 's" where
  "foldM_err f [] s = Inr s"
| "foldM_err f (x # xs) s = bind_err (f s x) (foldM_err f xs)"

text \<open>A float: a real number or NaN. Comparisons with NaN are false, as in Python.\<close>

datatype fval = Num real | NaN

fun fval_lt :: "fval \<Rightarrow> fval \<Rightarrow> bool" where
  "fval_lt (Num a) (Num b) = (a < b)"
| "fval_lt _ _ = False"

fun fval_eq :: "fval \<Rightarrow> fval \<Rightarrow> bool" where
  "fval_eq (Num a) (Num b) = (a = b)"
| "fval_eq _ _ = False"

text \<open>
  What \<^verbatim>\<open>mean_pooling\<close> can return and what the similarity functions take: a vector,
  or the 0-dimensional NaN that \<^verbatim>\<open>np.sum([], axis=0) / 0\<close> evaluates to.
\<close>

datatype ndarray = Vec "real list" | NanScalar

text \<open>
  What \<^verbatim>\<open>cosine_similarity\<close> can return: a float, or (when exactly one operand is the
  NaN scalar and NumPy broadcasts it over the other) an array of \<open>n\<close> NaNs.
\<close>

datatype cosres = Flt fval | NanArr nat

definition np_dot :: "real list \<Rightarrow> real list \<Rightarrow> real" where
  "np_dot a b = sum_list (map2 (*) a b)"

definition linalg_norm :: "real list \<Rightarrow> real" where
  "linalg_norm a = sqrt (sum_list (map (\<lambda>x. x * x) a))"

text \<open>
  \<^verbatim>\<open>np.dot(a, b) / (np.linalg.norm(a) * np.linalg.norm(b))\<close>. \<^verbatim>\<open>np.dot\<close> raises
  ValueError on vectors of different lengths. A zero norm gives \<^verbatim>\<open>0.0 / 0.0\<close>, which
  NumPy evaluates to NaN.
\<close>

fun cosine_similarity :: "ndarray \<Rightarrow> ndarray \<Rightarrow> error + cosres" where
  "cosine_similarity (Vec a) (Vec b) =
     (if length a \<noteq> length b then Inl ValueError
      else if linalg_norm a * linalg_norm b = 0 then Inr (Flt NaN)
      else Inr (Flt (Num (np_dot a b / (linalg_norm a * linalg_norm b)))))"
| "cosine_similarity NanScalar (Vec b) = Inr (NanArr (length b))"
| "cosine_similarity (Vec a) NanScalar = Inr (NanArr (length a))"
| "cosine_similarity NanScalar NanScalar = Inr (Flt NaN)"

text \<open>
  \<^verbatim>\<open>np.sum(embeddings, axis=0) / len(embeddings)\<close>. Rows of different lengths make
  NumPy raise ValueError; the empty list sums to the scalar 0.0 and the division by
  \<^verbatim>\<open>len([]) = 0\<close> gives the NaN scalar.
\<close>

definition mean_pooling :: "real list list \<Rightarrow> error + ndarray" where
  "mean_pooling embeddings =
     (case embeddings of
        [] \<Rightarrow> Inr NanScalar
      | e # es \<Rightarrow>
          if \<forall>v \<in> set es. length v = length e
          then Inr (Vec (map (\<lambda>x. x / real (length embeddings)) (foldl (map2 (+)) e es)))
          else Inl ValueError)"

text \<open>
  \<^verbatim>\<open>float(score)\<close>: the identity on a float; on an array it succeeds only when the array
  has exactly one element.
\<close>

fun py_float :: "cosres \<Rightarrow> error + fval" where
  "py_float (Flt x) = Inr x"
| "py_float (NanArr n) = (if n = 1 then Inr NaN else Inl TypeError)"

text \<open>
  The test \<^verbatim>\<open>item > max_item\<close> inside Python's \<^verbatim>\<open>max\<close>. On two floats it is the float
  comparison. When an operand is a NaN array the comparison is an array of False, whose
  truth value exists only if it has one element (and arrays of different sizes, neither
  of size one, do not broadcast).
\<close>

fun cos_gt :: "cosres \<Rightarrow> cosres \<Rightarrow> error + bool" where
  "cos_gt (Flt a) (Flt b) = Inr (fval_lt b a)"
| "cos_gt (NanArr n) (Flt b) = (if n = 1 then Inr False else Inl ValueError)"
| "cos_gt (Flt a) (NanArr m) = (if m = 1 then Inr False else Inl ValueError)"
| "cos_gt (NanArr n) (NanArr m) = (if n = 1 \<and> m = 1 then Inr False else Inl ValueError)"

fun py_max_loop :: "cosres \<Rightarrow> cosres list \<Rightarrow> error + cosres" where
  "py_max_loop max_item [] = Inr max_item"
| "py_max_loop max_item (item # rest) =
     bind_err (cos_gt item max_item)
       (\<lambda>b. py_max_loop (if b then item else max_item) rest)"

definition py_max :: "cosres list \<Rightarrow> error + cosres" where
  "py_max xs = (case xs of [] \<Rightarrow> Inl ValueError | x # rest \<Rightarrow> py_max_loop x rest)"

definition compare_all_embeddings_take_max :: "real list list \<Rightarrow> ndarray \<Rightarrow> error + cosres" where
  "compare_all_embeddings_take_max embeddings query_embed =
     bind_err (mapM_err (\<lambda>embedding. cosine_similarity (Vec embedding) query_embed) embeddings)
       py_max"

section \<open>Matches, sorting and slicing\<close>

record match =
  appid :: int
  name :: string
  match_type :: string
  score :: fval

text \<open>
  \<^verbatim>\<open>sorted(xs, key=..., reverse=True)\<close> and \<^verbatim>\<open>xs.sort(key=..., reverse=True)\<close>: Python's
  sort is stable, also with \<^verbatim>\<open>reverse=True\<close>. It is modelled by a stable insertion sort
  that uses only \<^verbatim>\<open><\<close> on the keys. On keys without NaN every stable sort returns the
  same list; on keys with NaN the order that Python returns depends on the comparisons
  its algorithm happens to make, and no result below relies on it.
\<close>

fun insort_desc :: "('a \<Rightarrow> fval) \<Rightarrow> 'a \<Rightarrow> 'a list \<Rightarrow> 'a list" where
  "insort_desc key x [] = [x]"
| "insort_desc key x (y # ys) =
     (if fval_lt (key x) (key y) then y # insort_desc key x ys else x # y # ys)"

definition sorted_desc :: "('a \<Rightarrow> fval) \<Rightarrow> 'a list \<Rightarrow> 'a list" where
  "sorted_desc key xs = foldr (insort_desc key) xs []"

text \<open>The slice \<^verbatim>\<open>xs[:n]\<close>; a negative \<open>n\<close> counts from the end.\<close>

definition slice_to :: "int \<Rightarrow> 'a list \<Rightarrow> 'a list" where
  "slice_to n xs = (if 0 \<le> n then take (nat n) xs else take (length xs - nat (- n)) xs)"

section \<open>The bounded collector: heapq on (score, random, item) tuples\<close>

type_synonym entry = "fval \<times> real \<times> match"

text \<open>
  Python's \<^verbatim>\<open><\<close> on two such tuples: the first position where they differ decides.
  Scores that are NaN always differ. When score and random number are both equal the
  two dicts are compared: equal dicts make the tuples equal, different dicts cannot be
  ordered and raise TypeError. (The dicts are compared only when the two scores are
  equal numbers, and \<^verbatim>\<open>add_to_heap\<close> builds every tuple with the score of its dict, so
  that equality of the records is equality of the dicts.)
\<close>

definition entry_lt :: "entry \<Rightarrow> entry \<Rightarrow> error + bool" where
  "entry_lt a b =
     (if \<not> fval_eq (fst a) (fst b) then Inr (fval_lt (fst a) (fst b))
      else if fst (snd a) \<noteq> fst (snd b) then Inr (fst (snd a) < fst (snd b))
      else if snd (snd a) = snd (snd b) then Inr False
      else Inl TypeError)"

text \<open>
  \<^verbatim>\<open>heappush\<close> and \<^verbatim>\<open>heappop\<close> are the functions of Python's \<^verbatim>\<open>heapq.py\<close>, on a list,
  with its two helpers; the C version of the module makes the same comparisons in the
  same order. The helpers are only called with positions inside the list.

  \<^verbatim>\<open>heapq._siftdown\<close>: the loop that moves parents down from \<open>pos\<close> until \<open>newitem\<close> fits.
\<close>

fun siftdown_loop :: "entry list \<Rightarrow> nat \<Rightarrow> nat \<Rightarrow> entry \<Rightarrow> error + entry list" where
  "siftdown_loop heap startpos pos newitem =
     (if pos > startpos then
        (let parentpos = (pos - 1) div 2;
             parent = heap ! parentpos
         in case entry_lt newitem parent of
              Inl e \<Rightarrow> Inl e
            | Inr lt \<Rightarrow>
                if lt then siftdown_loop (heap[pos := parent]) startpos parentpos newitem
                else Inr (heap[pos := newitem]))
      else Inr (heap[pos := newitem]))"

declare siftdown_loop.simps [simp del]

definition siftdown :: "entry list \<Rightarrow> nat \<Rightarrow> nat \<Rightarrow> error + entry list" where
  "siftdown heap startpos pos = siftdown_loop heap startpos pos (heap ! pos)"

text \<open>
  \<^verbatim>\<open>heapq._siftup\<close>: the loop bubbles the smaller child up until \<open>pos\<close> is a leaf and
  returns the heap with that leaf position.
\<close>

function siftup_loop :: "entry list \<Rightarrow> nat \<Rightarrow> error + (entry list \<times> nat)" where
  "siftup_loop heap pos =
     (let endpos = length heap; childpos = 2 * pos + 1 in
      if childpos < endpos then
        (let rightpos = childpos + 1 in
         if rightpos < endpos then
           (case entry_lt (heap ! childpos) (heap ! rightpos) of
              Inl e \<Rightarrow> Inl e
            | Inr lt \<Rightarrow>
                (let c = (if \<not> lt then rightpos else childpos)
                 in siftup_loop (heap[pos := heap ! c]) c))
         else siftup_loop (heap[pos := heap ! childpos]) childpos)
      else Inr (heap, pos))"
  by pat_completeness auto
termination
  by (relation "measure (\<lambda>(heap, pos). length heap - pos)") auto

declare siftup_loop.simps [simp del]

definition siftup :: "entry list \<Rightarrow> nat \<Rightarrow> error + entry list" where
  "siftup heap pos =
     (let newitem = heap ! pos in
      bind_err (siftup_loop heap pos)
        (\<lambda>(heap', leaf). siftdown (heap'[leaf := newitem]) pos leaf))"

definition heappush :: "entry list \<Rightarrow> entry \<Rightarrow> error + entry list" where
  "heappush heap item = siftdown (heap @ [item]) 0 (length heap)"

text \<open>\<^verbatim>\<open>heapq.heappop\<close> returns the popped item and leaves the rest in the heap.\<close>

definition heappop :: "entry list \<Rightarrow> error + (entry \<times> entry list)" where
  "heappop heap =
     (if heap = [] then Inl IndexError
      else
        (let lastelt = last heap; heap' = butlast heap in
         if heap' \<noteq> [] then
           bind_err (siftup (heap'[0 := lastelt]) 0) (\<lambda>h. Inr (heap' ! 0, h))
         else Inr (lastelt, heap')))"

text \<open>
  \<^verbatim>\<open>add_to_heap\<close>; \<open>rnd\<close> is the number that \<^verbatim>\<open>random.random()\<close> returns in this call.
\<close>

definition add_to_heap :: "entry list \<Rightarrow> match \<Rightarrow> int \<Rightarrow> real \<Rightarrow> error + entry list" where
  "add_to_heap heap item_to_add max_length rnd =
     bind_err (heappush heap (score item_to_add, rnd, item_to_add))
       (\<lambda>h. if int (length h) > max_length
            then bind_err (heappop h) (\<lambda>(_, h'). Inr h')
            else Inr h)"

text \<open>
  The end of \<^verbatim>\<open>search\<close> and \<^verbatim>\<open>search_similar\<close>: sort the tuples by their first
  component, descending, and keep the dicts.
\<close>

definition sort_and_strip :: "entry list \<Rightarrow> match list" where
  "sort_and_strip matches = map (\<lambda>m. snd (snd m)) (sorted_desc fst matches)"

section \<open>The collaborators of the ranking functions\<close>

text \<open>
  Everything the ranking functions read and that is not part of \<^verbatim>\<open>app.py\<close>: the two
  hnswlib indexes (module globals), the accessors of \<^verbatim>\<open>sqlite_helpers\<close>, the embedding
  model, Python's \<^verbatim>\<open>int\<close> on a request argument and the values that \<^verbatim>\<open>random.random()\<close>
  is going to return, in order. \<^verbatim>\<open>knn_query(q, k)\<close> is a function from the query and \<open>k\<close>
  to the first row of labels zipped with the first row of distances, or an exception.
  A dict is an association list in iteration order.
\<close>

record env =
  description_index :: "ndarray \<Rightarrow> int \<Rightarrow> error + (int \<times> real) list"
  review_index :: "ndarray \<Rightarrow> int \<Rightarrow> error + (int \<times> real) list"
  get_name_for_appid :: "int \<Rightarrow> string"
  get_paginated_embeddings_for_descriptions :: "(int \<times> real list list) list list"
  get_description_embeddings_for_appid :: "int \<Rightarrow> real list list"
  get_appids_with_review_embeds :: "int list"
  get_review_embeddings_for_appid :: "int \<Rightarrow> (int \<times> real list list) list"
  random :: "nat \<Rightarrow> real"
  py_int :: "string \<Rightarrow> error + int"
  tokenize_length :: "string option \<Rightarrow> nat"
  get_max_query_chunk_length :: nat
  generate_embedding_for_query :: "string \<Rightarrow> string option \<Rightarrow> ndarray"

section \<open>Exhaustive search\<close>

text \<open>
  \<open>description_step\<close> and \<open>review_step\<close> are the bodies of the two scanning loops of
  \<^verbatim>\<open>search\<close>; \<^verbatim>\<open>search_similar\<close> runs the same bodies after its test for the source
  entity. The state of a loop is the heap and the number of random numbers drawn so far.
\<close>

definition description_step ::
  "env \<Rightarrow> ndarray \<Rightarrow> int \<Rightarrow> entry list \<times> nat \<Rightarrow> int \<times> real list list
     \<Rightarrow> error + (entry list \<times> nat)" where
  "description_step E query_embed max_results st page_item =
     (case (st, page_item) of ((matches, n), (current_appid, embeddings)) \<Rightarrow>
        bind_err (compare_all_embeddings_take_max embeddings query_embed) (\<lambda>sc.
        bind_err (py_float sc) (\<lambda>s.
        bind_err (add_to_heap matches
                    \<lparr>appid = current_appid, name = get_name_for_appid E current_appid,
                     match_type = ''description'', score = s\<rparr>
                    max_results (random E n))
          (\<lambda>h. Inr (h, Suc n)))))"

definition review_step ::
  "env \<Rightarrow> ndarray \<Rightarrow> int \<Rightarrow> entry list \<times> nat \<Rightarrow> int \<Rightarrow> error + (entry list \<times> nat)" where
  "review_step E query_embed max_results st current_appid =
     (case st of (matches, n) \<Rightarrow>
        (let all_review_embeddings = get_review_embeddings_for_appid E current_appid;
             flat_embeddings = concat (map snd all_review_embeddings)
         in bind_err (mean_pooling flat_embeddings) (\<lambda>average_embedding.
            bind_err (cosine_similarity average_embedding query_embed) (\<lambda>sc.
            bind_err (py_float sc) (\<lambda>s.
            bind_err (add_to_heap matches
                        \<lparr>appid = current_appid, name = get_name_for_appid E current_appid,
                         match_type = ''review'', score = s\<rparr>
                        max_results (random E n))
              (\<lambda>h. Inr (h, Suc n)))))))"

definition search :: "env \<Rightarrow> ndarray \<Rightarrow> string \<Rightarrow> int \<Rightarrow> error + match list" where
  "search E query_embed query_for_type max_results =
     bind_err
       (if query_for_type = ''all'' \<or> query_for_type = ''description''
        then foldM_err (description_step E query_embed max_results)
               (concat (get_paginated_embeddings_for_descriptions E)) ([], 0)
        else Inr ([], 0))
       (\<lambda>st1.
     bind_err
       (if query_for_type = ''all'' \<or> query_for_type = ''review''
        then foldM_err (review_step E query_embed max_results)
               (get_appids_with_review_embeds E) st1
        else Inr st1)
       (\<lambda>st2. Inr (sort_and_strip (fst st2))))"

definition search_similar :: "env \<Rightarrow> int \<Rightarrow> string \<Rightarrow> int \<Rightarrow> error + match list" where
  "search_similar E query_appid query_for_type max_results =
     bind_err
       (if query_for_type = ''all'' \<or> query_for_type = ''description''
        then
          bind_err (mean_pooling (get_description_embeddings_for_appid E query_appid))
            (\<lambda>query_embed.
               foldM_err
                 (\<lambda>st page_item.
                    if fst page_item = query_appid then Inr st
                    else description_step E query_embed max_results st page_item)
                 (concat (get_paginated_embeddings_for_descriptions E)) ([], 0))
        else Inr ([], 0))
       (\<lambda>st1.
     bind_err
       (if query_for_type = ''all'' \<or> query_for_type = ''review''
        then
          (let query_review_embeddings = get_review_embeddings_for_appid E query_appid;
               query_flat_embeddings = concat (map snd query_review_embeddings)
           in bind_err (mean_pooling query_flat_embeddings)
                (\<lambda>query_embed.
                   foldM_err
                     (\<lambda>st current_appid.
                        if current_appid = query_appid then Inr st
                        else review_step E query_embed max_results st current_appid)
                     (get_appids_with_review_embeds E) st1))
        else Inr st1)
       (\<lambda>st2. Inr (sort_and_strip (fst st2))))"

section \<open>Index search\<close>

definition index_match :: "env \<Rightarrow> string \<Rightarrow> int \<times> real \<Rightarrow> match" where
  "index_match E mtype r =
     \<lparr>appid = fst r, name = get_name_for_appid E (fst r), match_type = mtype,
      score = Num (1 - snd r)\<rparr>"

definition index_search :: "env \<Rightarrow> ndarray \<Rightarrow> string \<Rightarrow> int \<Rightarrow> error + match list" where
  "index_search E query query_for_type max_results =
     bind_err
       (if query_for_type = ''all'' \<or> query_for_type = ''description''
        then bind_err (description_index E query max_results)
               (\<lambda>rs. Inr (map (index_match E ''description'') rs))
        else Inr [])
       (\<lambda>matches1.
     bind_err
       (if query_for_type = ''all'' \<or> query_for_type = ''review''
        then bind_err (review_index E query max_results)
               (\<lambda>rs. Inr (matches1 @ map (index_match E ''review'') rs))
        else Inr matches1)
       (\<lambda>matches. Inr (slice_to max_results (sorted_desc score matches))))"

definition index_search_similar :: "env \<Rightarrow> int \<Rightarrow> string \<Rightarrow> int \<Rightarrow> error + match list" where
  "index_search_similar E query_appid query_for_type max_results =
     bind_err
       (if query_for_type = ''all'' \<or> query_for_type = ''description''
        then
          bind_err (mean_pooling (get_description_embeddings_for_appid E query_appid))
            (\<lambda>query_embed.
          bind_err (description_index E query_embed (max_results + 1))
            (\<lambda>rs. Inr (map (index_match E ''description'')
                          (filter (\<lambda>r. fst r \<noteq> query_appid) rs))))
        else Inr [])
       (\<lambda>matches1.
     bind_err
       (if query_for_type = ''all'' \<or> query_for_type = ''review''
        then
          (let query_review_embeddings = get_review_embeddings_for_appid E query_appid;
               query_flat_embeddings = concat (map snd query_review_embeddings)
           in bind_err (mean_pooling query_flat_embeddings)
                (\<lambda>query_embed.
              bind_err (review_index E query_embed (max_results + 1))
                (\<lambda>rs. Inr (matches1 @ map (index_match E ''review'')
                                         (filter (\<lambda>r. fst r \<noteq> query_appid) rs)))))
        else Inr matches1)
       (\<lambda>matches. Inr (slice_to max_results (sorted_desc score matches))))"

section \<open>The request handlers\<close>

datatype response = BadRequest string | Ok "match list"

text \<open>
  \<^verbatim>\<open>num_results = 10 if num_results is None else int(num_results)\<close> followed by
  \<^verbatim>\<open>num_results = max(0, min(num_results, 100))\<close>.
\<close>

definition num_results_of :: "env \<Rightarrow> string option \<Rightarrow> error + int" where
  "num_results_of E arg =
     bind_err (case arg of None \<Rightarrow> Inr 10 | Some s \<Rightarrow> py_int E s)
       (\<lambda>num_results. Inr (max 0 (min num_results 100)))"

definition get_query_results ::
  "env \<Rightarrow> string option \<Rightarrow> string option \<Rightarrow> string option \<Rightarrow> string option
     \<Rightarrow> error + response" where
  "get_query_results E query type_arg instruction_arg num_results_arg =
     (let type = (case type_arg of None \<Rightarrow> ''all'' | Some t \<Rightarrow> t) in
      if type \<notin> set [''all'', ''description'', ''review'']
      then Inr (BadRequest ''Invalid type, must be one of: all, description, review'')
      else
        (let instruction =
               (case instruction_arg of
                  None \<Rightarrow> ''Represent a video game that has a description of:''
                | Some i \<Rightarrow> i)
         in bind_err (num_results_of E num_results_arg) (\<lambda>num_results.
              if tokenize_length E query > get_max_query_chunk_length E
              then Inr (BadRequest ''Query too long, shorten query or instruction'')
              else
                bind_err (index_search E (generate_embedding_for_query E instruction query)
                            type num_results)
                  (\<lambda>results. Inr (Ok results)))))"

text \<open>\<^verbatim>\<open>int(None)\<close> raises TypeError.\<close>

definition get_similar_games ::
  "env \<Rightarrow> string option \<Rightarrow> string option \<Rightarrow> error + response" where
  "get_similar_games E query num_results_arg =
     bind_err (case query of None \<Rightarrow> Inl TypeError | Some s \<Rightarrow> py_int E s) (\<lambda>query_appid.
     bind_err (num_results_of E num_results_arg) (\<lambda>num_results.
     bind_err (index_search_similar E query_appid ''all'' num_results)
       (\<lambda>results. Inr (Ok results))))"

text \<open>
  \<^verbatim>\<open>get_results\<close>: the \<^verbatim>\<open>try\<close> block covers the call of \<^verbatim>\<open>get_similar_games\<close> as well, so a
  ValueError raised anywhere inside it falls through to \<^verbatim>\<open>get_query_results\<close>.
\<close>

definition get_results ::
  "env \<Rightarrow> string option \<Rightarrow> string option \<Rightarrow> string option \<Rightarrow> string option
     \<Rightarrow> error + response" where
  "get_results E query type_arg instruction_arg num_results_arg =
     (case query of
        None \<Rightarrow> Inr (BadRequest ''No query specified'')
      | Some s \<Rightarrow>
          (case bind_err (py_int E s) (\<lambda>_. get_similar_games E query num_results_arg) of
             Inl ValueError \<Rightarrow> get_query_results E query type_arg instruction_arg num_results_arg
           | r \<Rightarrow> r))"

section \<open>Notions used to state the properties\<close>

text \<open>Less-or-equal on floats and the test that a float is a number.\<close>

fun fval_le :: "fval \<Rightarrow> fval \<Rightarrow> bool" where
  "fval_le (Num a) (Num b) = (a \<le> b)"
| "fval_le _ _ = False"

definition is_number :: "fval \<Rightarrow> bool" where
  "is_number x = (case x of Num _ \<Rightarrow> True | NaN \<Rightarrow> False)"

text \<open>
  \<open>ys\<close> is the stable descending sort of \<open>xs\<close> by \<open>key\<close>: a permutation, non-increasing, and
  elements with the same key keep their order.
\<close>

definition stable_desc_sort_of :: "('a \<Rightarrow> fval) \<Rightarrow> 'a list \<Rightarrow> 'a list \<Rightarrow> bool" where
  "stable_desc_sort_of key xs ys =
     (mset ys = mset xs \<and> sorted_wrt (\<lambda>a b. fval_le (key b) (key a)) ys \<and>
      (\<forall>k. filter (\<lambda>x. key x = k) ys = filter (\<lambda>x. key x = k) xs))"

text \<open>
  A small catalogue for the concrete evaluations: three entities, the third with two
  description passages; the indexes answer a vector query with a fixed ranking cut to
  \<open>k\<close> and reject the 0-dimensional NaN, as hnswlib rejects an input that is not a
  1D or 2D array.
\<close>

definition example_env :: env where
  "example_env =
     \<lparr>description_index =
        (\<lambda>q k. case q of
                  Vec v \<Rightarrow> Inr (take (nat k) [(1, 0), (3, 1 / 10), (2, 1)])
                | NanScalar \<Rightarrow> Inl RuntimeError),
      review_index =
        (\<lambda>q k. case q of
                  Vec v \<Rightarrow> Inr (take (nat k) [(1, 1 / 20), (2, 1 / 2)])
                | NanScalar \<Rightarrow> Inl RuntimeError),
      get_name_for_appid = (\<lambda>a. if a = 1 then ''A'' else if a = 2 then ''B'' else ''C''),
      get_paginated_embeddings_for_descriptions =
        [[(1, [[1, 0]]), (2, [[0, 1]])], [(3, [[1, 0], [0, 1]])]],
      get_description_embeddings_for_appid =
        (\<lambda>a. if a = 1 then [[1, 0]] else if a = 2 then [[0, 1]]
              else if a = 3 then [[1, 0], [0, 1]] else []),
      get_appids_with_review_embeds = [1, 2],
      get_review_embeddings_for_appid =
        (\<lambda>a. if a = 1 then [(10, [[1, 0]]), (11, [[1, 0]])]
              else if a = 2 then [(12, [[0, 1]])] else []),
      random = (\<lambda>n. 1 / (2 + real n)),
      py_int = (\<lambda>s. if s = ''250'' then Inr 250 else if s = ''-3'' then Inr (- 3)
                     else if s = ''2'' then Inr 2 else if s = ''1'' then Inr 1
                     else Inl ValueError),
      tokenize_length = (\<lambda>q. case q of None \<Rightarrow> 0 | Some s \<Rightarrow> length s),
      get_max_query_chunk_length = 512,
      generate_embedding_for_query = (\<lambda>i q. Vec [1, 0])\<rparr>"

text \<open>What the index functions sort: the per-type results, description first.\<close>

definition merged_of :: "env \<Rightarrow> (int \<times> real) list \<Rightarrow> (int \<times> real) list \<Rightarrow> match list" where
  "merged_of E ds rs = map (index_match E ''description'') ds @ map (index_match E ''review'') rs"

text \<open>A list of matches is non-increasing in score.\<close>

definition descending :: "match list \<Rightarrow> bool" where
  "descending ms = sorted_wrt (\<lambda>a b. fval_le (score b) (score a)) ms"

text \<open>\<open>ms\<close> is the stable descending sort of \<open>merged\<close>, cut to its first \<open>k\<close> elements.\<close>

definition merge_sort_truncate :: "match list \<Rightarrow> int \<Rightarrow> match list \<Rightarrow> bool" where
  "merge_sort_truncate merged k ms =
     (\<exists>srt. stable_desc_sort_of score merged srt \<and> ms = take (nat k) srt)"

text \<open>An index never answers with the same label twice.\<close>

definition labels_distinct :: "(ndarray \<Rightarrow> int \<Rightarrow> error + (int \<times> real) list) \<Rightarrow> bool" where
  "labels_distinct index = (\<forall>q k rs. index q k = Inr rs \<longrightarrow> distinct (map fst rs))"

text \<open>
  The order of the heap entries whose scores are numbers: by score, then by random
  number. \<open>score_num\<close> reads the number of a score.
\<close>

definition score_num :: "fval \<Rightarrow> real" where
  "score_num x = (case x of Num r \<Rightarrow> r | NaN \<Rightarrow> 0)"

definition entry_less :: "entry \<Rightarrow> entry \<Rightarrow> bool" where
  "entry_less a b =
     (score_num (fst a) < score_num (fst b) \<or>
      (score_num (fst a) = score_num (fst b) \<and> fst (snd a) < fst (snd b)))"

definition entry_leq :: "entry \<Rightarrow> entry \<Rightarrow> bool" where
  "entry_leq a b = (\<not> entry_less b a)"

text \<open>
  Two entries that Python can compare as numbers: both scores are numbers, and if score
  and random number are both equal the two items are the same (so that no two dicts are
  ever ordered).
\<close>

definition comparable :: "entry \<Rightarrow> entry \<Rightarrow> bool" where
  "comparable a b =
     (is_number (fst a) \<and> is_number (fst b) \<and>
      (fst a = fst b \<and> fst (snd a) = fst (snd b) \<longrightarrow> snd (snd a) = snd (snd b)))"

definition all_comparable :: "entry set \<Rightarrow> bool" where
  "all_comparable S = (\<forall>a \<in> S. \<forall>b \<in> S. comparable a b)"

text \<open>
  The heap invariant of \<^verbatim>\<open>heapq\<close> (\<open>heap[k] <= heap[2*k+1]\<close> and \<open>heap[k] <= heap[2*k+2]\<close>),
  and the same invariant for a heap with a hole at \<open>p\<close>, whose content does not count:
  every other position is above or equal to its nearest ancestor that is not the hole.
\<close>

definition parent :: "nat \<Rightarrow> nat" where
  "parent i = (i - 1) div 2"

definition heap_inv :: "entry list \<Rightarrow> bool" where
  "heap_inv h = (\<forall>i<length h. 0 < i \<longrightarrow> entry_leq (h ! (parent i)) (h ! i))"

definition hole_inv :: "entry list \<Rightarrow> nat \<Rightarrow> bool" where
  "hole_inv h p =
     (\<forall>i<length h. 0 < i \<and> i \<noteq> p \<longrightarrow>
        (if parent i = p then 0 < p \<longrightarrow> entry_leq (h ! (parent p)) (h ! i)
         else entry_leq (h ! (parent i)) (h ! i)))"

text \<open>
  A sequence of calls of \<^verbatim>\<open>add_to_heap\<close> with one \<open>max_length\<close>: each offer is the item and
  the random number drawn in its call; \<open>entry_of\<close> is the tuple pushed for it.
\<close>

definition entry_of :: "match \<times> real \<Rightarrow> entry" where
  "entry_of offer = (score (fst offer), snd offer, fst offer)"

definition offer_all :: "(match \<times> real) list \<Rightarrow> int \<Rightarrow> entry list \<Rightarrow> error + entry list" where
  "offer_all offers max_length heap =
     foldM_err (\<lambda>h offer. add_to_heap h (fst offer) max_length (snd offer)) offers heap"

text \<open>The tuples of all offers can be compared with each other.\<close>

definition comparable_offers :: "(match \<times> real) list \<Rightarrow> bool" where
  "comparable_offers offers = all_comparable (entry_of ` set offers)"

text \<open>
  \<open>out\<close> is a top \<open>K\<close> by score of \<open>offered\<close>: it is taken from the offered items, has
  \<open>K\<close> elements (all of them if fewer were offered), and no item left out has a score
  above a score that is in.
\<close>

definition top_k_of :: "nat \<Rightarrow> match list \<Rightarrow> match list \<Rightarrow> bool" where
  "top_k_of K offered out =
     (mset out \<subseteq># mset offered \<and> length out = min K (length offered) \<and>
      (\<forall>x \<in># mset offered - mset out. \<forall>y \<in> set out. fval_le (score x) (score y)))"

text \<open>The state of the collector after the entries \<open>es\<close> have been offered.\<close>

definition collected :: "nat \<Rightarrow> entry list \<Rightarrow> entry list \<Rightarrow> bool" where
  "collected K es h =
     (heap_inv h \<and> mset h \<subseteq># mset es \<and> length h = min K (length es) \<and>
      (\<forall>x \<in># mset es - mset h. \<forall>y \<in> set h. entry_leq x y))"

text \<open>Four offers for the concrete evaluations of the collector.\<close>

definition example_offers :: "(match \<times> real) list" where
  "example_offers =
     [(\<lparr>appid = 1, name = ''A'', match_type = ''description'', score = Num (1 / 2)\<rparr>, 1 / 2),
      (\<lparr>appid = 2, name = ''B'', match_type = ''description'', score = Num (1 / 4)\<rparr>, 1 / 3),
      (\<lparr>appid = 3, name = ''C'', match_type = ''review'', score = Num 1\<rparr>, 1 / 4),
      (\<lparr>appid = 4, name = ''D'', match_type = ''review'', score = Num (3 / 4)\<rparr>, 1 / 5)]"

text \<open>Offers with a NaN score, and two offers that agree in score and random number.\<close>

definition nan_offers :: "(match \<times> real) list" where
  "nan_offers =
     [(\<lparr>appid = 1, name = ''A'', match_type = ''description'', score = Num (9 / 10)\<rparr>, 1 / 2),
      (\<lparr>appid = 2, name = ''B'', match_type = ''description'', score = NaN\<rparr>, 1 / 3),
      (\<lparr>appid = 3, name = ''C'', match_type = ''description'', score = Num (1 / 10)\<rparr>, 1 / 4)]"

definition tied_offers :: "(match \<times> real) list" where
  "tied_offers =
     [(\<lparr>appid = 1, name = ''A'', match_type = ''description'', score = Num (1 / 2)\<rparr>, 1 / 2),
      (\<lparr>appid = 2, name = ''B'', match_type = ''description'', score = Num (1 / 2)\<rparr>, 1 / 2)]"

section \<open>The sort is a stable descending sort\<close>

lemma mset_insort_desc: "mset (insort_desc key x ys) = add_mset x (mset ys)"
  by (induction ys) auto

lemma mset_sorted_desc: "mset (sorted_desc key xs) = mset xs"
  by (induction xs) (auto simp: sorted_desc_def mset_insort_desc)

lemma set_sorted_desc: "set (sorted_desc key xs) = set xs"
  using mset_sorted_desc [of key xs] by (metis set_mset_mset)

lemma length_sorted_desc: "length (sorted_desc key xs) = length xs"
  using mset_sorted_desc [of key xs] by (metis size_mset)

lemma set_insort_desc: "set (insort_desc key x ys) = insert x (set ys)"
  using mset_insort_desc [of key x ys] by (metis set_mset_add_mset_insert set_mset_mset)

lemma fval_le_total: "is_number a \<Longrightarrow> is_number b \<Longrightarrow> \<not> fval_lt a b \<Longrightarrow> fval_le b a"
  by (cases a; cases b) (auto simp: is_number_def)

lemma fval_lt_le: "fval_lt a b \<Longrightarrow> fval_le a b"
  by (cases a; cases b) auto

lemma fval_le_trans: "fval_le a b \<Longrightarrow> fval_le b c \<Longrightarrow> fval_le a c"
  by (cases a; cases b; cases c) auto

lemma sorted_insort_desc:
  "is_number (key x) \<Longrightarrow> \<forall>y \<in> set ys. is_number (key y) \<Longrightarrow>
   sorted_wrt (\<lambda>a b. fval_le (key b) (key a)) ys \<Longrightarrow>
   sorted_wrt (\<lambda>a b. fval_le (key b) (key a)) (insort_desc key x ys)"
proof (induction ys)
  case Nil
  then show ?case by simp
next
  case (Cons y ys)
  show ?case
  proof (cases "fval_lt (key x) (key y)")
    case True
    have "\<forall>z \<in> set (insort_desc key x ys). fval_le (key z) (key y)"
      using Cons.prems True by (auto simp: set_insort_desc fval_lt_le)
    with Cons True show ?thesis by simp
  next
    case False
    have xy: "fval_le (key y) (key x)"
      using False Cons.prems by (simp add: fval_le_total)
    have "\<forall>z \<in> set ys. fval_le (key z) (key x)"
      using Cons.prems xy by (auto intro: fval_le_trans)
    with Cons.prems False xy show ?thesis by simp
  qed
qed

lemma sorted_sorted_desc:
  "\<forall>y \<in> set xs. is_number (key y) \<Longrightarrow>
   sorted_wrt (\<lambda>a b. fval_le (key b) (key a)) (sorted_desc key xs)"
proof (induction xs)
  case Nil
  then show ?case by (simp add: sorted_desc_def)
next
  case (Cons x xs)
  have "sorted_wrt (\<lambda>a b. fval_le (key b) (key a)) (insort_desc key x (sorted_desc key xs))"
    using Cons by (intro sorted_insort_desc) (auto simp: set_sorted_desc)
  then show ?case by (simp add: sorted_desc_def)
qed

lemma filter_insort_desc:
  "is_number (key x) \<Longrightarrow> \<forall>y \<in> set ys. is_number (key y) \<Longrightarrow>
   sorted_wrt (\<lambda>a b. fval_le (key b) (key a)) ys \<Longrightarrow>
   filter (\<lambda>z. key z = k) (insort_desc key x ys) =
     (if key x = k then x # filter (\<lambda>z. key z = k) ys else filter (\<lambda>z. key z = k) ys)"
proof (induction ys)
  case Nil
  then show ?case by simp
next
  case (Cons y ys)
  show ?case
  proof (cases "fval_lt (key x) (key y)")
    case True
    then have "key y \<noteq> key x" by (cases "key x"; cases "key y") auto
    with Cons True show ?thesis by auto
  next
    case False
    then show ?thesis by simp
  qed
qed

lemma filter_sorted_desc:
  "\<forall>y \<in> set xs. is_number (key y) \<Longrightarrow>
   filter (\<lambda>z. key z = k) (sorted_desc key xs) = filter (\<lambda>z. key z = k) xs"
proof (induction xs)
  case Nil
  then show ?case by (simp add: sorted_desc_def)
next
  case (Cons x xs)
  have "filter (\<lambda>z. key z = k) (insort_desc key x (sorted_desc key xs)) =
        (if key x = k then x # filter (\<lambda>z. key z = k) (sorted_desc key xs)
         else filter (\<lambda>z. key z = k) (sorted_desc key xs))"
    using Cons.prems
    by (intro filter_insort_desc sorted_sorted_desc) (auto simp: set_sorted_desc)
  with Cons show ?case by (simp add: sorted_desc_def)
qed

lemma sorted_desc_stable:
  "\<forall>y \<in> set xs. is_number (key y) \<Longrightarrow> stable_desc_sort_of key xs (sorted_desc key xs)"
  by (simp add: stable_desc_sort_of_def mset_sorted_desc sorted_sorted_desc filter_sorted_desc)

lemma distinct_sorted_desc: "distinct (map f (sorted_desc key xs)) = distinct (map f xs)"
proof -
  have "mset (map f (sorted_desc key xs)) = mset (map f xs)"
    by (simp add: mset_sorted_desc)
  then show ?thesis by (metis distinct_count_atmost_1 set_mset_mset)
qed

section \<open>The error monad, slices and the shape of the index functions\<close>

lemma bind_err_simps [simp]:
  "bind_err (Inr x) f = f x" "bind_err (Inl e) f = Inl e"
  by (simp_all add: bind_err_def)

lemma bind_err_InrE:
  assumes "bind_err m f = Inr y"
  obtains x where "m = Inr x" and "f x = Inr y"
  using assms by (cases m) auto

lemma length_slice_to: "0 \<le> n \<Longrightarrow> length (slice_to n xs) \<le> nat n"
  by (simp add: slice_to_def)

lemma set_slice_to: "set (slice_to n xs) \<subseteq> set xs"
  by (auto simp: slice_to_def dest: in_set_takeD)

lemma slice_to_nonneg: "0 \<le> n \<Longrightarrow> slice_to n xs = take (nat n) xs"
  by (simp add: slice_to_def)

lemma distinct_map_slice_to: "distinct (map f xs) \<Longrightarrow> distinct (map f (slice_to n xs))"
  by (simp add: slice_to_def take_map [symmetric] distinct_take)

lemma score_index_match [simp]: "score (index_match E t r) = Num (1 - snd r)"
  "appid (index_match E t r) = fst r" "match_type (index_match E t r) = t"
  by (simp_all add: index_match_def)

lemma is_number_merged: "\<forall>m \<in> set (merged_of E ds rs). is_number (score m)"
  by (auto simp: merged_of_def is_number_def)

lemma index_search_eq:
  assumes "index_search E q t k = Inr ms"
  obtains ds rs where
    "if t = ''all'' \<or> t = ''description'' then description_index E q k = Inr ds else ds = []"
    "if t = ''all'' \<or> t = ''review'' then review_index E q k = Inr rs else rs = []"
    "ms = slice_to k (sorted_desc score (merged_of E ds rs))"
proof -
  from assms obtain m1 m2 where
    1: "(if t = ''all'' \<or> t = ''description''
         then bind_err (description_index E q k) (\<lambda>rs. Inr (map (index_match E ''description'') rs))
         else Inr []) = Inr m1"
    and 2: "(if t = ''all'' \<or> t = ''review''
         then bind_err (review_index E q k) (\<lambda>rs. Inr (m1 @ map (index_match E ''review'') rs))
         else Inr m1) = Inr m2"
    and 3: "ms = slice_to k (sorted_desc score m2)"
    unfolding index_search_def by (auto elim!: bind_err_InrE)
  from 1 obtain ds where
    d: "if t = ''all'' \<or> t = ''description'' then description_index E q k = Inr ds else ds = []"
    and m1: "m1 = map (index_match E ''description'') ds"
    by (auto split: if_splits elim!: bind_err_InrE)
  from 2 obtain rs where
    r: "if t = ''all'' \<or> t = ''review'' then review_index E q k = Inr rs else rs = []"
    and m2: "m2 = m1 @ map (index_match E ''review'') rs"
    by (auto split: if_splits elim!: bind_err_InrE)
  show ?thesis
    using that [OF d r] 3 m1 m2 by (simp add: merged_of_def)
qed

lemma index_search_similar_eq:
  assumes "index_search_similar E x t k = Inr ms"
  obtains qd qr ds rs where
    "if t = ''all'' \<or> t = ''description''
     then mean_pooling (get_description_embeddings_for_appid E x) = Inr qd \<and>
          description_index E qd (k + 1) = Inr ds
     else ds = []"
    "if t = ''all'' \<or> t = ''review''
     then mean_pooling (concat (map snd (get_review_embeddings_for_appid E x))) = Inr qr \<and>
          review_index E qr (k + 1) = Inr rs
     else rs = []"
    "ms = slice_to k (sorted_desc score
            (merged_of E (filter (\<lambda>r. fst r \<noteq> x) ds) (filter (\<lambda>r. fst r \<noteq> x) rs)))"
proof -
  from assms obtain m1 m2 where
    1: "(if t = ''all'' \<or> t = ''description''
         then bind_err (mean_pooling (get_description_embeddings_for_appid E x))
            (\<lambda>query_embed.
          bind_err (description_index E query_embed (k + 1))
            (\<lambda>rs. Inr (map (index_match E ''description'')
                          (filter (\<lambda>r. fst r \<noteq> x) rs))))
         else Inr []) = Inr m1"
    and 2: "(if t = ''all'' \<or> t = ''review''
        then
          (let query_review_embeddings = get_review_embeddings_for_appid E x;
               query_flat_embeddings = concat (map snd query_review_embeddings)
           in bind_err (mean_pooling query_flat_embeddings)
                (\<lambda>query_embed.
              bind_err (review_index E query_embed (k + 1))
                (\<lambda>rs. Inr (m1 @ map (index_match E ''review'')
                                         (filter (\<lambda>r. fst r \<noteq> x) rs)))))
        else Inr m1) = Inr m2"
    and 3: "ms = slice_to k (sorted_desc score m2)"
    unfolding index_search_similar_def by (auto elim!: bind_err_InrE)
  from 1 obtain qd ds where
    d: "if t = ''all'' \<or> t = ''description''
     then mean_pooling (get_description_embeddings_for_appid E x) = Inr qd \<and>
          description_index E qd (k + 1) = Inr ds
     else ds = []"
    and m1: "m1 = map (index_match E ''description'') (filter (\<lambda>r. fst r \<noteq> x) ds)"
    by (auto split: if_splits elim!: bind_err_InrE)
  from 2 obtain qr rs where
    r: "if t = ''all'' \<or> t = ''review''
     then mean_pooling (concat (map snd (get_review_embeddings_for_appid E x))) = Inr qr \<and>
          review_index E qr (k + 1) = Inr rs
     else rs = []"
    and m2: "m2 = m1 @ map (index_match E ''review'') (filter (\<lambda>r. fst r \<noteq> x) rs)"
    by (auto simp: Let_def split: if_splits elim!: bind_err_InrE)
  show ?thesis
    using that [OF d r] 3 m1 m2 by (simp add: merged_of_def)
qed

section \<open>Properties of the index path\<close>

lemma merge_sort_truncate_slice:
  assumes "0 \<le> k"
  shows "merge_sort_truncate (merged_of E ds rs) k
           (slice_to k (sorted_desc score (merged_of E ds rs))) \<and>
         length (slice_to k (sorted_desc score (merged_of E ds rs))) \<le> nat k \<and>
         descending (slice_to k (sorted_desc score (merged_of E ds rs)))"
proof -
  have st: "stable_desc_sort_of score (merged_of E ds rs) (sorted_desc score (merged_of E ds rs))"
    by (rule sorted_desc_stable) (rule is_number_merged)
  then have "sorted_wrt (\<lambda>a b. fval_le (score b) (score a)) (sorted_desc score (merged_of E ds rs))"
    by (simp add: stable_desc_sort_of_def)
  then have "descending (take (nat k) (sorted_desc score (merged_of E ds rs)))"
    unfolding descending_def by (rule sorted_wrt_take)
  with st assms show ?thesis
    by (auto simp: merge_sort_truncate_def slice_to_nonneg)
qed

text \<open>
  C4. Index path, both \<^verbatim>\<open>index_search\<close> and \<^verbatim>\<open>index_search_similar\<close>, for a result
  limit that is not negative: the per-type results are concatenated, sorted by score
  descending with a stable sort and cut to the first \<open>max_results\<close> elements, so the
  returned list has at most \<open>max_results\<close> elements and is non-increasing in score.
\<close>

theorem index_results_merged_sorted_truncated:
  assumes "0 \<le> k"
  shows "(index_search E q t k = Inr ms \<longrightarrow>
          (\<exists>ds rs.
             (if t = ''all'' \<or> t = ''description''
              then description_index E q k = Inr ds else ds = []) \<and>
             (if t = ''all'' \<or> t = ''review''
              then review_index E q k = Inr rs else rs = []) \<and>
             merge_sort_truncate (merged_of E ds rs) k ms) \<and>
          length ms \<le> nat k \<and> descending ms) \<and>
         (index_search_similar E x t k = Inr ms' \<longrightarrow>
          (\<exists>qd qr ds rs.
             (if t = ''all'' \<or> t = ''description''
              then mean_pooling (get_description_embeddings_for_appid E x) = Inr qd \<and>
                   description_index E qd (k + 1) = Inr ds
              else ds = []) \<and>
             (if t = ''all'' \<or> t = ''review''
              then mean_pooling (concat (map snd (get_review_embeddings_for_appid E x))) = Inr qr \<and>
                   review_index E qr (k + 1) = Inr rs
              else rs = []) \<and>
             merge_sort_truncate
               (merged_of E (filter (\<lambda>r. fst r \<noteq> x) ds) (filter (\<lambda>r. fst r \<noteq> x) rs)) k ms') \<and>
          length ms' \<le> nat k \<and> descending ms')"
proof (intro conjI impI)
  assume a: "index_search E q t k = Inr ms"
  then obtain ds rs where
    d: "if t = ''all'' \<or> t = ''description'' then description_index E q k = Inr ds else ds = []"
    and r: "if t = ''all'' \<or> t = ''review'' then review_index E q k = Inr rs else rs = []"
    and ms: "ms = slice_to k (sorted_desc score (merged_of E ds rs))"
    by (rule index_search_eq)
  note m = merge_sort_truncate_slice [OF assms, of E ds rs, folded ms]
  from d r m show "\<exists>ds rs.
             (if t = ''all'' \<or> t = ''description''
              then description_index E q k = Inr ds else ds = []) \<and>
             (if t = ''all'' \<or> t = ''review''
              then review_index E q k = Inr rs else rs = []) \<and>
             merge_sort_truncate (merged_of E ds rs) k ms" by blast
  from m show "length ms \<le> nat k" "descending ms" by simp_all
next
  assume a: "index_search_similar E x t k = Inr ms'"
  then obtain qd qr ds rs where
    d: "if t = ''all'' \<or> t = ''description''
     then mean_pooling (get_description_embeddings_for_appid E x) = Inr qd \<and>
          description_index E qd (k + 1) = Inr ds
     else ds = []"
    and r: "if t = ''all'' \<or> t = ''review''
     then mean_pooling (concat (map snd (get_review_embeddings_for_appid E x))) = Inr qr \<and>
          review_index E qr (k + 1) = Inr rs
     else rs = []"
    and ms: "ms' = slice_to k (sorted_desc score
            (merged_of E (filter (\<lambda>r. fst r \<noteq> x) ds) (filter (\<lambda>r. fst r \<noteq> x) rs)))"
    by (rule index_search_similar_eq)
  note m = merge_sort_truncate_slice [OF assms, of E "filter (\<lambda>r. fst r \<noteq> x) ds"
      "filter (\<lambda>r. fst r \<noteq> x) rs", folded ms]
  from d r m show "\<exists>qd qr ds rs.
             (if t = ''all'' \<or> t = ''description''
              then mean_pooling (get_description_embeddings_for_appid E x) = Inr qd \<and>
                   description_index E qd (k + 1) = Inr ds
              else ds = []) \<and>
             (if t = ''all'' \<or> t = ''review''
              then mean_pooling (concat (map snd (get_review_embeddings_for_appid E x))) = Inr qr \<and>
                   review_index E qr (k + 1) = Inr rs
              else rs = []) \<and>
             merge_sort_truncate
               (merged_of E (filter (\<lambda>r. fst r \<noteq> x) ds) (filter (\<lambda>r. fst r \<noteq> x) rs)) k ms'"
    by blast
  from m show "length ms' \<le> nat k" "descending ms'" by simp_all
qed

lemma example_index_search:
  "index_search example_env (Vec [1, 0]) ''all'' 2 =
     Inr [\<lparr>appid = 1, name = ''A'', match_type = ''description'', score = Num 1\<rparr>,
          \<lparr>appid = 1, name = ''A'', match_type = ''review'', score = Num (19 / 20)\<rparr>]"
  by (simp add: index_search_def example_env_def sorted_desc_def slice_to_def index_match_def)

lemma example_mean_pooling: "mean_pooling [[1, 0]] = Inr (Vec [1, 0])"
  "mean_pooling [[1, 0], [1, 0]] = Inr (Vec [1, 0])"
  by (simp_all add: mean_pooling_def)

lemma example_index_search_similar:
  "index_search_similar example_env 1 ''all'' 2 =
     Inr [\<lparr>appid = 3, name = ''C'', match_type = ''description'', score = Num (9 / 10)\<rparr>,
          \<lparr>appid = 2, name = ''B'', match_type = ''review'', score = Num (1 / 2)\<rparr>]"
  by (simp add: index_search_similar_def example_env_def sorted_desc_def slice_to_def
      index_match_def example_mean_pooling)

theorem index_results_merged_sorted_truncated_witness:
  "(0::int) \<le> 2 \<and>
   index_search example_env (Vec [1, 0]) ''all'' 2 =
     Inr [\<lparr>appid = 1, name = ''A'', match_type = ''description'', score = Num 1\<rparr>,
          \<lparr>appid = 1, name = ''A'', match_type = ''review'', score = Num (19 / 20)\<rparr>] \<and>
   descending
         [\<lparr>appid = 1, name = ''A'', match_type = ''description'', score = Num 1\<rparr>,
          \<lparr>appid = 1, name = ''A'', match_type = ''review'', score = Num (19 / 20)\<rparr>] \<and>
   index_search_similar example_env 1 ''all'' 2 =
     Inr [\<lparr>appid = 3, name = ''C'', match_type = ''description'', score = Num (9 / 10)\<rparr>,
          \<lparr>appid = 2, name = ''B'', match_type = ''review'', score = Num (1 / 2)\<rparr>] \<and>
   descending
         [\<lparr>appid = 3, name = ''C'', match_type = ''description'', score = Num (9 / 10)\<rparr>,
          \<lparr>appid = 2, name = ''B'', match_type = ''review'', score = Num (1 / 2)\<rparr>]"
  using index_results_merged_sorted_truncated [of 2 example_env "Vec [1, 0]" "''all''"
      "[\<lparr>appid = 1, name = ''A'', match_type = ''description'', score = Num 1\<rparr>,
          \<lparr>appid = 1, name = ''A'', match_type = ''review'', score = Num (19 / 20)\<rparr>]" 1
      "[\<lparr>appid = 3, name = ''C'', match_type = ''description'', score = Num (9 / 10)\<rparr>,
          \<lparr>appid = 2, name = ''B'', match_type = ''review'', score = Num (1 / 2)\<rparr>]"]
    example_index_search example_index_search_similar
  by simp

text \<open>
  Against C1: with match type \<^verbatim>\<open>all\<close> the entity 1, which both indexes return, is in
  the result twice.
\<close>

theorem index_search_all_repeats_entity:
  "map appid (case index_search example_env (Vec [1, 0]) ''all'' 2 of Inl e \<Rightarrow> [] | Inr ms \<Rightarrow> ms)
     = [1, 1]"
  by (simp add: example_index_search)

lemma distinct_merged_of:
  assumes "distinct (map fst ds)" "distinct (map fst rs)"
  shows "distinct (map (\<lambda>m. (appid m, match_type m)) (merged_of E ds rs))"
proof -
  have 1: "map (\<lambda>m. (appid m, match_type m)) (map (index_match E t) xs) =
           map (\<lambda>r. (fst r, t)) xs" for t xs
    by simp
  have 2: "distinct (map (\<lambda>r. (fst r, t)) xs) = distinct (map fst xs)"
    for t :: string and xs :: "(int \<times> real) list"
    by (induction xs) auto
  show ?thesis
    using assms by (auto simp: merged_of_def comp_def 2)
qed

lemma distinct_appid_merged_of:
  assumes "distinct (map fst ds)" "distinct (map fst rs)" "ds = [] \<or> rs = []"
  shows "distinct (map appid (merged_of E ds rs))"
proof -
  have 1: "map appid (map (index_match E t) xs) = map fst xs" for t xs
    by simp
  from assms show ?thesis
    by (auto simp: merged_of_def comp_def)
qed

text \<open>
  C1, amended. When each index answers with distinct labels, a result list of the index
  path holds each pair of entity id and match type at most once, and for a single match
  type each entity id at most once; with match type \<^verbatim>\<open>all\<close> an entity can be there once
  per match type.
\<close>

theorem index_results_distinct_per_type:
  assumes "labels_distinct (description_index E)"
    and "labels_distinct (review_index E)"
  shows "(index_search E q t k = Inr ms \<longrightarrow>
            distinct (map (\<lambda>m. (appid m, match_type m)) ms) \<and>
            (t \<noteq> ''all'' \<longrightarrow> distinct (map appid ms))) \<and>
         (index_search_similar E x t k = Inr ms' \<longrightarrow>
            distinct (map (\<lambda>m. (appid m, match_type m)) ms') \<and>
            (t \<noteq> ''all'' \<longrightarrow> distinct (map appid ms')))"
proof (intro conjI impI)
  assume a: "index_search E q t k = Inr ms"
  then obtain ds rs where
    d: "if t = ''all'' \<or> t = ''description'' then description_index E q k = Inr ds else ds = []"
    and r: "if t = ''all'' \<or> t = ''review'' then review_index E q k = Inr rs else rs = []"
    and ms: "ms = slice_to k (sorted_desc score (merged_of E ds rs))"
    by (rule index_search_eq)
  have dd: "distinct (map fst ds)" using d assms(1) by (auto simp: labels_distinct_def split: if_splits)
  have dr: "distinct (map fst rs)" using r assms(2) by (auto simp: labels_distinct_def split: if_splits)
  show "distinct (map (\<lambda>m. (appid m, match_type m)) ms)"
    unfolding ms
    by (intro distinct_map_slice_to) (simp add: distinct_sorted_desc distinct_merged_of dd dr)
  show "distinct (map appid ms)" if "t \<noteq> ''all''"
  proof -
    have "ds = [] \<or> rs = []" using d r that by (auto split: if_splits)
    then show ?thesis
      unfolding ms
      by (intro distinct_map_slice_to)
         (simp add: distinct_sorted_desc distinct_appid_merged_of dd dr)
  qed
next
  assume a: "index_search_similar E x t k = Inr ms'"
  then obtain qd qr ds rs where
    d: "if t = ''all'' \<or> t = ''description''
     then mean_pooling (get_description_embeddings_for_appid E x) = Inr qd \<and>
          description_index E qd (k + 1) = Inr ds
     else ds = []"
    and r: "if t = ''all'' \<or> t = ''review''
     then mean_pooling (concat (map snd (get_review_embeddings_for_appid E x))) = Inr qr \<and>
          review_index E qr (k + 1) = Inr rs
     else rs = []"
    and ms: "ms' = slice_to k (sorted_desc score
            (merged_of E (filter (\<lambda>r. fst r \<noteq> x) ds) (filter (\<lambda>r. fst r \<noteq> x) rs)))"
    by (rule index_search_similar_eq)
  have dd: "distinct (map fst (filter (\<lambda>r. fst r \<noteq> x) ds))"
    using d assms(1) by (auto simp: labels_distinct_def split: if_splits intro!: distinct_map_filter)
  have dr: "distinct (map fst (filter (\<lambda>r. fst r \<noteq> x) rs))"
    using r assms(2) by (auto simp: labels_distinct_def split: if_splits intro!: distinct_map_filter)
  show "distinct (map (\<lambda>m. (appid m, match_type m)) ms')"
    unfolding ms
    by (intro distinct_map_slice_to) (simp add: distinct_sorted_desc distinct_merged_of dd dr)
  show "distinct (map appid ms')" if "t \<noteq> ''all''"
  proof -
    have "filter (\<lambda>r. fst r \<noteq> x) ds = [] \<or> filter (\<lambda>r. fst r \<noteq> x) rs = []"
      using d r that by (auto split: if_splits)
    then show ?thesis
      unfolding ms
      by (intro distinct_map_slice_to)
         (simp add: distinct_sorted_desc distinct_appid_merged_of dd dr)
  qed
qed

lemma example_env_labels:
  "labels_distinct (description_index example_env)"
  "labels_distinct (review_index example_env)"
  by (auto simp: labels_distinct_def example_env_def take_map [symmetric] split: ndarray.splits intro!: distinct_take)

theorem index_results_distinct_per_type_witness:
  "labels_distinct (description_index example_env) \<and>
   labels_distinct (review_index example_env) \<and>
   index_search example_env (Vec [1, 0]) ''all'' 2 =
     Inr [\<lparr>appid = 1, name = ''A'', match_type = ''description'', score = Num 1\<rparr>,
          \<lparr>appid = 1, name = ''A'', match_type = ''review'', score = Num (19 / 20)\<rparr>] \<and>
   distinct (map (\<lambda>m. (appid m, match_type m))
         [\<lparr>appid = 1, name = ''A'', match_type = ''description'', score = Num 1\<rparr>,
          \<lparr>appid = 1, name = ''A'', match_type = ''review'', score = Num (19 / 20)\<rparr>]) \<and>
   index_search_similar example_env 1 ''all'' 2 =
     Inr [\<lparr>appid = 3, name = ''C'', match_type = ''description'', score = Num (9 / 10)\<rparr>,
          \<lparr>appid = 2, name = ''B'', match_type = ''review'', score = Num (1 / 2)\<rparr>] \<and>
   distinct (map (\<lambda>m. (appid m, match_type m))
         [\<lparr>appid = 3, name = ''C'', match_type = ''description'', score = Num (9 / 10)\<rparr>,
          \<lparr>appid = 2, name = ''B'', match_type = ''review'', score = Num (1 / 2)\<rparr>])"
  using index_results_distinct_per_type [OF example_env_labels, of "Vec [1, 0]" "''all''" 2
      "[\<lparr>appid = 1, name = ''A'', match_type = ''description'', score = Num 1\<rparr>,
          \<lparr>appid = 1, name = ''A'', match_type = ''review'', score = Num (19 / 20)\<rparr>]" 1
      "[\<lparr>appid = 3, name = ''C'', match_type = ''description'', score = Num (9 / 10)\<rparr>,
          \<lparr>appid = 2, name = ''B'', match_type = ''review'', score = Num (1 / 2)\<rparr>]"]
    example_index_search example_index_search_similar example_env_labels
  by simp

text \<open>
  C9. The result of \<^verbatim>\<open>index_search\<close> is determined by its arguments, the two indexes
  and the names in the database: two runs in states that agree on these return the same
  list in the same order, whatever else differs (the random generator included).
\<close>

theorem index_search_deterministic:
  assumes "description_index E' = description_index E"
    and "review_index E' = review_index E"
    and "get_name_for_appid E' = get_name_for_appid E"
  shows "index_search E' q t k = index_search E q t k"
proof -
  have "index_match E' = index_match E"
    using assms(3) by (simp add: index_match_def fun_eq_iff)
  with assms(1,2) show ?thesis
    by (simp add: index_search_def)
qed

theorem index_search_deterministic_witness:
  "description_index (example_env\<lparr>random := \<lambda>n. 0\<rparr>) = description_index example_env \<and>
   review_index (example_env\<lparr>random := \<lambda>n. 0\<rparr>) = review_index example_env \<and>
   get_name_for_appid (example_env\<lparr>random := \<lambda>n. 0\<rparr>) = get_name_for_appid example_env \<and>
   index_search (example_env\<lparr>random := \<lambda>n. 0\<rparr>) (Vec [1, 0]) ''all'' 2 =
     index_search example_env (Vec [1, 0]) ''all'' 2"
  using index_search_deterministic [of "example_env\<lparr>random := \<lambda>n. 0\<rparr>" example_env
      "Vec [1, 0]" "''all''" 2]
  by simp

section \<open>Dot product, norm and column sums\<close>

lemma np_dot_sum: "length a = length b \<Longrightarrow> np_dot a b = (\<Sum>i<length a. a ! i * b ! i)"
proof -
  assume l: "length a = length b"
  have "sum_list (map2 (*) a b) = (\<Sum>i = 0..<length (map2 (*) a b). map2 (*) a b ! i)"
    by (rule sum_list_sum_nth)
  also have "\<dots> = (\<Sum>i<length a. a ! i * b ! i)"
    using l by (intro sum.cong) (auto simp: lessThan_atLeast0)
  finally show ?thesis by (simp add: np_dot_def)
qed

lemma sum_squares_sum:
  "sum_list (map (\<lambda>x. x * x) a) = (\<Sum>i<length a. ((a :: real list) ! i)\<^sup>2)"
proof -
  have "sum_list (map (\<lambda>x. x * x) a) = (\<Sum>i = 0..<length (map (\<lambda>x. x * x) a). map (\<lambda>x. x * x) a ! i)"
    by (rule sum_list_sum_nth)
  also have "\<dots> = (\<Sum>i<length a. (a ! i)\<^sup>2)"
    by (intro sum.cong) (auto simp: lessThan_atLeast0 power2_eq_square)
  finally show ?thesis .
qed

lemma linalg_norm_sum: "linalg_norm a = sqrt (\<Sum>i<length a. (a ! i)\<^sup>2)"
  by (simp add: linalg_norm_def sum_squares_sum)

lemma sum_squares_zero_iff:
  "sum_list (map (\<lambda>x. x * x) a) = 0 \<longleftrightarrow> (\<forall>x \<in> set a. x = (0::real))"
proof (induction a)
  case Nil
  then show ?case by simp
next
  case (Cons x a)
  have nn: "0 \<le> sum_list (map (\<lambda>x. x * x) a)"
    by (rule sum_list_nonneg) auto
  have "x * x + sum_list (map (\<lambda>x. x * x) a) = 0 \<longleftrightarrow> x * x = 0 \<and> sum_list (map (\<lambda>x. x * x) a) = 0"
    using nn by (intro add_nonneg_eq_0_iff) auto
  with Cons show ?case by simp
qed

lemma linalg_norm_zero_iff: "linalg_norm a = 0 \<longleftrightarrow> (\<forall>x \<in> set a. x = 0)"
  by (simp add: linalg_norm_def sum_squares_zero_iff)

lemma example_norm: "linalg_norm [1, 0] = 1" "linalg_norm [0, 1] = 1"
  by (simp_all add: linalg_norm_def)

lemma length_foldl_add:
  "\<forall>v \<in> set es. length v = length e \<Longrightarrow> length (foldl (map2 (+)) e es) = length (e :: real list)"
  by (induction es arbitrary: e) auto

lemma nth_foldl_add:
  "\<forall>v \<in> set es. length v = length e \<Longrightarrow> i < length e \<Longrightarrow>
   foldl (map2 (+)) e es ! i = (e ! i :: real) + (\<Sum>v\<leftarrow>es. v ! i)"
proof (induction es arbitrary: e)
  case Nil
  then show ?case by simp
next
  case (Cons w es)
  have "foldl (map2 (+)) (map2 (+) e w) es ! i = map2 (+) e w ! i + (\<Sum>v\<leftarrow>es. v ! i)"
    using Cons.prems by (intro Cons.IH) auto
  with Cons.prems show ?case by simp
qed

section \<open>What the similarity functions return\<close>

lemma add_to_heap_empty:
  "1 \<le> k \<Longrightarrow> add_to_heap [] item k r = Inr [(score item, r, item)]"
  by (simp add: add_to_heap_def heappush_def siftdown_def siftdown_loop.simps)

lemma search_single_zero_candidate:
  assumes "get_paginated_embeddings_for_descriptions E = [[(c, [a])]]"
    and "\<forall>x \<in> set a. x = 0" and "length a = length b" and "1 \<le> k"
  shows "search E (Vec b) ''description'' k =
           Inr [\<lparr>appid = c, name = get_name_for_appid E c, match_type = ''description'',
                score = NaN\<rparr>]"
proof -
  have "linalg_norm a = 0"
    using assms(2) by (simp add: linalg_norm_zero_iff)
  then have "compare_all_embeddings_take_max [a] (Vec b) = Inr (Flt NaN)"
    using assms(3) by (simp add: compare_all_embeddings_take_max_def py_max_def)
  then show ?thesis
    using assms(1,4)
    by (simp add: search_def description_step_def add_to_heap_empty sort_and_strip_def
        sorted_desc_def)
qed

text \<open>
  C5, amended. For two vectors of the same length: when neither is the zero vector,
  \<^verbatim>\<open>cosine_similarity\<close> returns their dot product divided by the product of their norms;
  when one of them has norm zero it raises nothing and returns NaN. The exhaustive
  search does not skip such a candidate: a zero-norm candidate that is the only one is
  returned, with the score NaN.
\<close>

theorem cosine_similarity_zero_norm_is_nan:
  assumes "length a = length b"
  shows "((\<exists>x \<in> set a. x \<noteq> 0) \<and> (\<exists>y \<in> set b. y \<noteq> 0) \<longrightarrow>
            cosine_similarity (Vec a) (Vec b) =
              Inr (Flt (Num ((\<Sum>i<length a. a ! i * b ! i) /
                 (sqrt (\<Sum>i<length a. (a ! i)\<^sup>2) * sqrt (\<Sum>i<length b. (b ! i)\<^sup>2)))))) \<and>
         ((\<forall>x \<in> set a. x = 0) \<or> (\<forall>y \<in> set b. y = 0) \<longrightarrow>
            cosine_similarity (Vec a) (Vec b) = Inr (Flt NaN)) \<and>
         (\<forall>(E :: env) c k. get_paginated_embeddings_for_descriptions E = [[(c, [a])]] \<and>
            (\<forall>x \<in> set a. x = 0) \<and> 1 \<le> k \<longrightarrow>
            search E (Vec b) ''description'' k =
              Inr [\<lparr>appid = c, name = get_name_for_appid E c, match_type = ''description'',
                   score = NaN\<rparr>])"
proof (intro conjI impI allI)
  assume "(\<exists>x \<in> set a. x \<noteq> 0) \<and> (\<exists>y \<in> set b. y \<noteq> 0)"
  then have "linalg_norm a \<noteq> 0" "linalg_norm b \<noteq> 0"
    by (simp_all add: linalg_norm_zero_iff)
  then have "cosine_similarity (Vec a) (Vec b) =
      Inr (Flt (Num (np_dot a b / (linalg_norm a * linalg_norm b))))"
    using assms by simp
  then show "cosine_similarity (Vec a) (Vec b) =
              Inr (Flt (Num ((\<Sum>i<length a. a ! i * b ! i) /
                 (sqrt (\<Sum>i<length a. (a ! i)\<^sup>2) * sqrt (\<Sum>i<length b. (b ! i)\<^sup>2)))))"
    using assms by (simp only: np_dot_sum linalg_norm_sum)
next
  assume "(\<forall>x \<in> set a. x = 0) \<or> (\<forall>y \<in> set b. y = 0)"
  then have "linalg_norm a = 0 \<or> linalg_norm b = 0"
    by (simp add: linalg_norm_zero_iff)
  then show "cosine_similarity (Vec a) (Vec b) = Inr (Flt NaN)"
    using assms by auto
next
  fix E :: env and c :: int and k :: int
  assume "get_paginated_embeddings_for_descriptions E = [[(c, [a])]] \<and>
            (\<forall>x \<in> set a. x = 0) \<and> 1 \<le> k"
  then show "search E (Vec b) ''description'' k =
              Inr [\<lparr>appid = c, name = get_name_for_appid E c, match_type = ''description'',
                   score = NaN\<rparr>]"
    using assms search_single_zero_candidate [of E c a b k] by simp
qed

text \<open>
  Against C5: on a zero vector \<^verbatim>\<open>cosine_similarity\<close> returns NaN; there is no
  ZeroVectorError.
\<close>

theorem cosine_similarity_raises_no_zero_vector_error:
  "cosine_similarity (Vec [0, 0]) (Vec [1, 0]) = Inr (Flt NaN)"
  by (simp add: linalg_norm_def)

theorem cosine_similarity_zero_norm_is_nan_witness:
  "length [1, 0 :: real] = length [1, 0 :: real] \<and>
   cosine_similarity (Vec [1, 0]) (Vec [1, 0]) = Inr (Flt (Num 1)) \<and>
   length [0, 0 :: real] = length [1, 0 :: real] \<and>
   cosine_similarity (Vec [0, 0]) (Vec [1, 0]) = Inr (Flt NaN) \<and>
   get_paginated_embeddings_for_descriptions
     (example_env\<lparr>get_paginated_embeddings_for_descriptions := [[(7, [[0, 0]])]]\<rparr>) =
     [[(7, [[0, 0]])]] \<and>
   search (example_env\<lparr>get_paginated_embeddings_for_descriptions := [[(7, [[0, 0]])]]\<rparr>)
     (Vec [1, 0]) ''description'' 2 =
     Inr [\<lparr>appid = 7, name = ''C'', match_type = ''description'', score = NaN\<rparr>]"
proof -
  have 1: "(\<Sum>i<2. [1, 0 :: real] ! i * [1, 0] ! i) = 1" "(\<Sum>i<2. ([1, 0 :: real] ! i)\<^sup>2) = 1"
    by (simp_all add: lessThan_Suc numeral_2_eq_2)
  have n: "get_name_for_appid
     (example_env\<lparr>get_paginated_embeddings_for_descriptions := [[(7, [[0, 0]])]]\<rparr>) 7 = ''C''"
    by (simp add: example_env_def)
  show ?thesis
    using cosine_similarity_zero_norm_is_nan [of "[1, 0]" "[1, 0]"]
      cosine_similarity_zero_norm_is_nan [of "[0, 0]" "[1, 0]"] 1 n
    by simp
qed

text \<open>
  C6, amended. For a non-empty list of vectors of one dimension \<open>d\<close>, \<^verbatim>\<open>mean_pooling\<close>
  returns the vector of the \<open>d\<close> elementwise arithmetic means; for the empty list it
  raises nothing and returns the NaN scalar.
\<close>

theorem mean_pooling_mean_or_nan:
  "(vs \<noteq> [] \<and> (\<forall>v \<in> set vs. length v = d) \<longrightarrow>
      (\<exists>m. mean_pooling vs = Inr (Vec m) \<and> length m = d \<and>
           (\<forall>i<d. m ! i = (\<Sum>v\<leftarrow>vs. v ! i) / real (length vs)))) \<and>
   mean_pooling [] = Inr NanScalar"
proof (intro conjI impI)
  assume a: "vs \<noteq> [] \<and> (\<forall>v \<in> set vs. length v = d)"
  then obtain e es where vs: "vs = e # es" by (cases vs) auto
  with a have le: "length e = d" and les: "\<forall>v \<in> set es. length v = length e" by auto
  let ?s = "foldl (map2 (+)) e es"
  let ?m = "map (\<lambda>x. x / real (length vs)) ?s"
  have mp: "mean_pooling vs = Inr (Vec ?m)"
    using les by (simp add: mean_pooling_def vs)
  have len: "length ?m = d"
    using les le by (simp add: length_foldl_add)
  have "?m ! i = (\<Sum>v\<leftarrow>vs. v ! i) / real (length vs)" if "i < d" for i
  proof -
    have "?s ! i = e ! i + (\<Sum>v\<leftarrow>es. v ! i)"
      using les le that by (intro nth_foldl_add) auto
    moreover have "i < length ?s"
      using les le that by (simp add: length_foldl_add)
    ultimately show ?thesis by (simp add: vs)
  qed
  with mp len show "\<exists>m. mean_pooling vs = Inr (Vec m) \<and> length m = d \<and>
           (\<forall>i<d. m ! i = (\<Sum>v\<leftarrow>vs. v ! i) / real (length vs))"
    by blast
next
  show "mean_pooling [] = Inr NanScalar"
    by (simp add: mean_pooling_def)
qed

text \<open>Against C6: the empty list is not an error of \<^verbatim>\<open>mean_pooling\<close>.\<close>

theorem mean_pooling_empty_raises_nothing: "mean_pooling [] = Inr NanScalar"
  by (simp add: mean_pooling_def)

theorem mean_pooling_mean_or_nan_witness:
  "[[1, 0], [0, 1 :: real]] \<noteq> [] \<and>
   mean_pooling [[1, 0], [0, 1]] = Inr (Vec [1 / 2, 1 / 2]) \<and>
   (\<exists>m. mean_pooling [[1, 0], [0, 1]] = Inr (Vec m) \<and> length m = 2 \<and>
        m ! 0 = (\<Sum>v\<leftarrow>[[1, 0], [0, 1]]. v ! 0) / real (length [[1, 0], [0, 1 :: real]]))"
  using mean_pooling_mean_or_nan [of "[[1, 0], [0, 1]]" 2]
  by (auto simp: mean_pooling_def)

section \<open>A source entity without vectors\<close>

text \<open>
  Against C7: entity 99 has no vectors at all and entity 3 has description vectors but
  no review vectors; for both the query with match type \<^verbatim>\<open>all\<close> raises the error of the
  index, which is asked with the NaN scalar.
\<close>

theorem index_search_similar_without_vectors_raises:
  "index_search_similar example_env 99 ''all'' 2 = Inl RuntimeError \<and>
   index_search_similar example_env 3 ''all'' 2 = Inl RuntimeError \<and>
   get_description_embeddings_for_appid example_env 99 = [] \<and>
   get_review_embeddings_for_appid example_env 99 = [] \<and>
   get_review_embeddings_for_appid example_env 3 = []"
  by (simp add: index_search_similar_def example_env_def mean_pooling_def)

text \<open>
  C7, amended. \<^verbatim>\<open>index_search_similar\<close> skips no requested match type. When the source
  entity has no vectors of a requested type, the index of that type is asked with the
  NaN scalar that \<^verbatim>\<open>mean_pooling\<close> returns for the empty list and \<open>k = max_results + 1\<close>:
  an error of the index is the error of the query, and an answer of the index is ranked
  like any other.
\<close>

theorem index_search_similar_without_vectors:
  "(get_description_embeddings_for_appid E x = [] \<and> (t = ''all'' \<or> t = ''description'') \<and>
    description_index E NanScalar (k + 1) = Inl e \<longrightarrow>
      index_search_similar E x t k = Inl e) \<and>
   (concat (map snd (get_review_embeddings_for_appid E x)) = [] \<and> t = ''review'' \<and>
    review_index E NanScalar (k + 1) = Inl e \<longrightarrow>
      index_search_similar E x t k = Inl e) \<and>
   (concat (map snd (get_review_embeddings_for_appid E x)) = [] \<and> t = ''all'' \<and>
    mean_pooling (get_description_embeddings_for_appid E x) = Inr qd \<and>
    description_index E qd (k + 1) = Inr ds' \<and>
    review_index E NanScalar (k + 1) = Inl e \<longrightarrow>
      index_search_similar E x t k = Inl e) \<and>
   (get_description_embeddings_for_appid E x = [] \<and>
    concat (map snd (get_review_embeddings_for_appid E x)) = [] \<and>
    description_index E NanScalar (k + 1) = Inr ds \<and>
    review_index E NanScalar (k + 1) = Inr rs \<longrightarrow>
      index_search_similar E x ''all'' k =
        Inr (slice_to k (sorted_desc score
               (merged_of E (filter (\<lambda>r. fst r \<noteq> x) ds) (filter (\<lambda>r. fst r \<noteq> x) rs)))))"
proof -
  have mp: "mean_pooling [] = Inr NanScalar"
    by (simp add: mean_pooling_def)
  show ?thesis
    by (auto simp: index_search_similar_def mp merged_of_def simp del: concat_eq_Nil_conv)
qed

theorem index_search_similar_without_vectors_witness:
  "get_description_embeddings_for_appid example_env 99 = [] \<and>
   description_index example_env NanScalar (2 + 1) = Inl RuntimeError \<and>
   index_search_similar example_env 99 ''all'' 2 = Inl RuntimeError \<and>
   concat (map snd (get_review_embeddings_for_appid example_env 3)) = [] \<and>
   review_index example_env NanScalar (2 + 1) = Inl RuntimeError \<and>
   index_search_similar example_env 3 ''review'' 2 = Inl RuntimeError"
  using index_search_similar_without_vectors [of example_env 99 "''all''" 2 RuntimeError]
    index_search_similar_without_vectors [of example_env 3 "''review''" 2 RuntimeError]
  by (simp add: example_env_def)

section \<open>The result limit of a request\<close>

lemma num_results_of_range:
  assumes "num_results_of E a = Inr k"
  shows "0 \<le> k \<and> k \<le> 100"
  using assms by (auto simp: num_results_of_def elim!: bind_err_InrE)

lemma length_index_search:
  assumes "0 \<le> k" "index_search E q t k = Inr ms"
  shows "length ms \<le> nat k"
  using assms by (auto elim!: index_search_eq simp: length_slice_to)

lemma length_index_search_similar:
  assumes "0 \<le> k" "index_search_similar E x t k = Inr ms"
  shows "length ms \<le> nat k"
  using assms by (auto elim!: index_search_similar_eq simp: length_slice_to)

lemma get_query_results_Ok:
  assumes "get_query_results E q t i a = Inr (Ok ms)"
  obtains k qe ty where "num_results_of E a = Inr k" "index_search E qe ty k = Inr ms"
  using assms
  by (auto simp: get_query_results_def Let_def split: if_splits elim!: bind_err_InrE)

lemma get_similar_games_Ok:
  assumes "get_similar_games E q a = Inr (Ok ms)"
  obtains k x where "num_results_of E a = Inr k" "index_search_similar E x ''all'' k = Inr ms"
  using assms
  by (auto simp: get_similar_games_def elim!: bind_err_InrE)

lemma get_results_Ok:
  assumes "get_results E q t i a = Inr (Ok ms)"
  shows "get_query_results E q t i a = Inr (Ok ms) \<or> get_similar_games E q a = Inr (Ok ms)"
  using assms
  by (auto simp: get_results_def bind_err_def split: option.splits sum.splits error.splits)

lemma length_handlers:
  "get_query_results E q t i a = Inr (Ok ms) \<Longrightarrow> length ms \<le> nat (case num_results_of E a of Inr k \<Rightarrow> k | Inl e \<Rightarrow> 0)"
  "get_similar_games E q a = Inr (Ok ms) \<Longrightarrow> length ms \<le> nat (case num_results_of E a of Inr k \<Rightarrow> k | Inl e \<Rightarrow> 0)"
proof -
  assume "get_query_results E q t i a = Inr (Ok ms)"
  then obtain k qe ty where k: "num_results_of E a = Inr k" and s: "index_search E qe ty k = Inr ms"
    by (rule get_query_results_Ok)
  from num_results_of_range [OF k] s have "length ms \<le> nat k"
    by (intro length_index_search) auto
  with k show "length ms \<le> nat (case num_results_of E a of Inr k \<Rightarrow> k | Inl e \<Rightarrow> 0)" by simp
next
  assume "get_similar_games E q a = Inr (Ok ms)"
  then obtain k x where k: "num_results_of E a = Inr k"
    and s: "index_search_similar E x ''all'' k = Inr ms"
    by (rule get_similar_games_Ok)
  from num_results_of_range [OF k] s have "length ms \<le> nat k"
    by (intro length_index_search_similar) auto
  with k show "length ms \<le> nat (case num_results_of E a of Inr k \<Rightarrow> k | Inl e \<Rightarrow> 0)" by simp
qed

text \<open>
  C10. The result limit of a request is 10 when \<^verbatim>\<open>num_results\<close> is absent and
  \<open>max 0 (min n 100)\<close> when it is the integer \<open>n\<close>; it is always between 0 and 100, every
  handler returns at most that many matches, so never more than 100, and none for a
  negative \<open>n\<close>.
\<close>

theorem num_results_clamped:
  "num_results_of E None = Inr 10 \<and>
   (py_int E s = Inr n \<longrightarrow> num_results_of E (Some s) = Inr (max 0 (min n 100))) \<and>
   (num_results_of E a = Inr k \<longrightarrow> 0 \<le> k \<and> k \<le> 100) \<and>
   (get_query_results E q t i a = Inr (Ok ms) \<or> get_similar_games E q a = Inr (Ok ms) \<or>
    get_results E q t i a = Inr (Ok ms) \<longrightarrow>
      (\<exists>k. num_results_of E a = Inr k \<and> length ms \<le> nat k) \<and> length ms \<le> 100) \<and>
   (py_int E s = Inr n \<and> n < 0 \<and>
    (get_query_results E q t i (Some s) = Inr (Ok ms') \<or>
     get_similar_games E q (Some s) = Inr (Ok ms') \<or>
     get_results E q t i (Some s) = Inr (Ok ms')) \<longrightarrow> ms' = [])"
proof (intro conjI impI)
  show "num_results_of E None = Inr 10"
    by (simp add: num_results_of_def)
  show "num_results_of E (Some s) = Inr (max 0 (min n 100))" if "py_int E s = Inr n"
    using that by (simp add: num_results_of_def)
  show "0 \<le> k" "k \<le> 100" if "num_results_of E a = Inr k"
    using num_results_of_range [OF that] by simp_all
  have len: "\<exists>k. num_results_of E a = Inr k \<and> length ms \<le> nat k"
    if "get_query_results E q t i a = Inr (Ok ms) \<or> get_similar_games E q a = Inr (Ok ms) \<or>
        get_results E q t i a = Inr (Ok ms)" for a ms
  proof -
    from that get_results_Ok [of E q t i a ms]
    have "get_query_results E q t i a = Inr (Ok ms) \<or> get_similar_games E q a = Inr (Ok ms)"
      by blast
    then have 1: "length ms \<le> nat (case num_results_of E a of Inr k \<Rightarrow> k | Inl e \<Rightarrow> 0)"
      using length_handlers by blast
    from \<open>get_query_results E q t i a = Inr (Ok ms) \<or> get_similar_games E q a = Inr (Ok ms)\<close>
    obtain k where "num_results_of E a = Inr k"
      by (auto elim: get_query_results_Ok get_similar_games_Ok)
    with 1 show ?thesis by simp
  qed
  {
    assume h: "get_query_results E q t i a = Inr (Ok ms) \<or> get_similar_games E q a = Inr (Ok ms) \<or>
        get_results E q t i a = Inr (Ok ms)"
    from len [OF h] show "\<exists>k. num_results_of E a = Inr k \<and> length ms \<le> nat k" .
    then obtain k where k: "num_results_of E a = Inr k" "length ms \<le> nat k" by blast
    with num_results_of_range [OF k(1)] show "length ms \<le> 100" by linarith
  }
  {
    assume h: "py_int E s = Inr n \<and> n < 0 \<and>
    (get_query_results E q t i (Some s) = Inr (Ok ms') \<or>
     get_similar_games E q (Some s) = Inr (Ok ms') \<or>
     get_results E q t i (Some s) = Inr (Ok ms'))"
    then have "num_results_of E (Some s) = Inr 0"
      by (simp add: num_results_of_def)
    moreover from h len [of "Some s" ms']
    obtain k where "num_results_of E (Some s) = Inr k" "length ms' \<le> nat k" by blast
    ultimately show "ms' = []" by simp
  }
qed

theorem num_results_clamped_witness:
  "py_int example_env ''250'' = Inr 250 \<and>
   num_results_of example_env (Some ''250'') = Inr 100 \<and>
   py_int example_env ''-3'' = Inr (- 3) \<and>
   num_results_of example_env (Some ''-3'') = Inr 0 \<and>
   get_similar_games example_env (Some ''1'') (Some ''-3'') = Inr (Ok []) \<and>
   get_query_results example_env (Some ''a game'') None None (Some ''2'') =
     Inr (Ok [\<lparr>appid = 1, name = ''A'', match_type = ''description'', score = Num 1\<rparr>,
              \<lparr>appid = 1, name = ''A'', match_type = ''review'', score = Num (19 / 20)\<rparr>]) \<and>
   length [\<lparr>appid = 1, name = ''A'', match_type = ''description'', score = Num 1\<rparr>,
           \<lparr>appid = 1, name = ''A'', match_type = ''review'', score = Num (19 / 20)\<rparr>] \<le> 100"
proof -
  have p: "py_int example_env ''250'' = Inr 250" "py_int example_env ''-3'' = Inr (- 3)"
    "py_int example_env ''2'' = Inr 2" "py_int example_env ''1'' = Inr 1"
    by (simp_all add: example_env_def)
  have g: "generate_embedding_for_query example_env i q = Vec [1, 0]"
    "tokenize_length example_env (Some ''a game'') = 6"
    "get_max_query_chunk_length example_env = 512" for i q
    by (simp_all add: example_env_def)
  have s: "index_search_similar example_env 1 ''all'' 0 = Inr []"
    by (simp add: index_search_similar_def example_env_def sorted_desc_def slice_to_def
        index_match_def example_mean_pooling)
  have q: "get_query_results example_env (Some ''a game'') None None (Some ''2'') =
     Inr (Ok [\<lparr>appid = 1, name = ''A'', match_type = ''description'', score = Num 1\<rparr>,
              \<lparr>appid = 1, name = ''A'', match_type = ''review'', score = Num (19 / 20)\<rparr>])"
    by (simp add: get_query_results_def num_results_of_def p g example_index_search)
  have sg: "get_similar_games example_env (Some ''1'') (Some ''-3'') = Inr (Ok [])"
    by (simp add: get_similar_games_def num_results_of_def p s)
  show ?thesis
    using num_results_clamped [of example_env "''250''" 250 "Some ''250''" 100]
      num_results_clamped [of example_env "''-3''" "- 3" "Some ''-3''" 0
        "Some ''1''" None None "[]" "[]"]
      num_results_clamped [of example_env "''2''" 2 "Some ''2''" 2
        "Some ''a game''" None None
        "[\<lparr>appid = 1, name = ''A'', match_type = ''description'', score = Num 1\<rparr>,
          \<lparr>appid = 1, name = ''A'', match_type = ''review'', score = Num (19 / 20)\<rparr>]"]
      p q sg
    by simp
qed

section \<open>heapq keeps the heap invariant\<close>

lemma mset_update_move:
  "p < length h \<Longrightarrow> q < length h \<Longrightarrow> p \<noteq> q \<Longrightarrow>
   mset (h[p := h ! q, q := x]) = mset (h[p := x])"
  by (simp add: mset_update nth_list_update)

lemma mset_siftdown_loop:
  "siftdown_loop h s p x = Inr h' \<Longrightarrow> p < length h \<Longrightarrow> mset h' = mset (h[p := x])"
proof (induction h s p x arbitrary: h' rule: siftdown_loop.induct)
  case (1 heap startpos pos newitem)
  show ?case
  proof (cases "startpos < pos")
    case False
    with "1.prems" show ?thesis by (simp add: siftdown_loop.simps)
  next
    case True
    let ?pp = "(pos - 1) div 2"
    from True have pp: "?pp < pos" by arith
    from "1.prems"(1) True obtain lt where lt: "entry_lt newitem (heap ! ?pp) = Inr lt"
      by (subst (asm) siftdown_loop.simps) (auto simp: Let_def split: sum.splits)
    show ?thesis
    proof (cases lt)
      case False
      with "1.prems" True lt show ?thesis
        by (subst (asm) siftdown_loop.simps) (simp add: Let_def)
    next
      case True
      with "1.prems"(1) \<open>startpos < pos\<close> lt
      have r: "siftdown_loop (heap[pos := heap ! ?pp]) startpos ?pp newitem = Inr h'"
        by (subst (asm) siftdown_loop.simps) (simp add: Let_def)
      have "mset h' = mset (heap[pos := heap ! ?pp, ?pp := newitem])"
        using "1.IH" [OF \<open>startpos < pos\<close> refl refl lt True r] pp "1.prems"(2) by simp
      also have "\<dots> = mset (heap[pos := newitem])"
        using pp "1.prems"(2) by (intro mset_update_move) auto
      finally show ?thesis .
    qed
  qed
qed

lemma siftup_loop_shape:
  "siftup_loop h p = Inr (h', l) \<Longrightarrow> p < length h \<Longrightarrow>
   length h' = length h \<and> l < length h \<and> p \<le> l \<and> length h \<le> 2 * l + 1 \<and>
   (\<forall>x. mset (h'[l := x]) = mset (h[p := x]))"
proof (induction h p arbitrary: h' l rule: siftup_loop.induct)
  case (1 heap pos)
  let ?c = "2 * pos + 1"
  show ?case
  proof (cases "?c < length heap")
    case False
    with "1.prems" show ?thesis
      by (subst (asm) siftup_loop.simps) (auto simp: Let_def)
  next
    case c: True
    show ?thesis
    proof (cases "?c + 1 < length heap")
      case False
      with c "1.prems"(1)
      have r: "siftup_loop (heap[pos := heap ! ?c]) ?c = Inr (h', l)"
        by (subst (asm) siftup_loop.simps) (simp add: Let_def)
      have ih: "length h' = length heap \<and> l < length heap \<and> ?c \<le> l \<and> length heap \<le> 2 * l + 1 \<and>
            (\<forall>x. mset (h'[l := x]) = mset (heap[pos := heap ! ?c, ?c := x]))"
        using "1.IH"(2) [OF refl refl c refl False r] c by simp
      moreover have "mset (heap[pos := heap ! ?c, ?c := x]) = mset (heap[pos := x])" for x
        using c "1.prems"(2) by (intro mset_update_move) auto
      ultimately show ?thesis by auto
    next
      case rp: True
      with c "1.prems"(1) obtain lt where lt: "entry_lt (heap ! ?c) (heap ! (?c + 1)) = Inr lt"
        by (subst (asm) siftup_loop.simps) (auto simp: Let_def split: sum.splits)
      let ?d = "if \<not> lt then ?c + 1 else ?c"
      from c rp "1.prems"(1) lt
      have r: "siftup_loop (heap[pos := heap ! ?d]) ?d = Inr (h', l)"
        by (subst (asm) siftup_loop.simps) (auto simp: Let_def split: if_splits)
      have d: "?d < length heap" "pos < ?d" using c rp by auto
      have ih: "length h' = length heap \<and> l < length heap \<and> ?d \<le> l \<and> length heap \<le> 2 * l + 1 \<and>
            (\<forall>x. mset (h'[l := x]) = mset (heap[pos := heap ! ?d, ?d := x]))"
        using "1.IH"(1) [OF refl refl c refl rp lt refl r] d by simp
      moreover have "mset (heap[pos := heap ! ?d, ?d := x]) = mset (heap[pos := x])" for x
        using d "1.prems"(2) by (intro mset_update_move) auto
      ultimately show ?thesis using d by auto
    qed
  qed
qed

lemma entry_lt_comparable: "comparable a b \<Longrightarrow> entry_lt a b = Inr (entry_less a b)"
  by (cases a; cases b; cases "fst a"; cases "fst b")
     (auto simp: comparable_def entry_lt_def entry_less_def score_num_def is_number_def)

lemma entry_leq_refl: "entry_leq a a"
  by (simp add: entry_leq_def entry_less_def)

lemma entry_leq_trans: "entry_leq a b \<Longrightarrow> entry_leq b c \<Longrightarrow> entry_leq a c"
  by (auto simp: entry_leq_def entry_less_def)

lemma entry_leq_total: "entry_leq a b \<or> entry_leq b a"
  by (auto simp: entry_leq_def entry_less_def)

lemma entry_less_leq: "entry_less a b \<Longrightarrow> entry_leq a b"
  by (auto simp: entry_leq_def entry_less_def)

lemma entry_leq_score: "entry_leq a b \<Longrightarrow> score_num (fst a) \<le> score_num (fst b)"
  by (auto simp: entry_leq_def entry_less_def)

lemma all_comparable_subset: "all_comparable S \<Longrightarrow> T \<subseteq> S \<Longrightarrow> all_comparable T"
  by (auto simp: all_comparable_def)

lemma all_comparableD: "all_comparable S \<Longrightarrow> a \<in> S \<Longrightarrow> b \<in> S \<Longrightarrow> entry_lt a b = Inr (entry_less a b)"
  by (simp add: all_comparable_def entry_lt_comparable)

lemma parent_less: "0 < i \<Longrightarrow> parent i < i"
  by (simp add: parent_def)

lemma heap_inv_fill:
  assumes "hole_inv h p" "p < length h"
    and "0 < p \<longrightarrow> entry_leq (h ! (parent p)) x"
    and "\<forall>c<length h. 0 < c \<and> parent c = p \<longrightarrow> entry_leq x (h ! c)"
  shows "heap_inv (h[p := x])"
  unfolding heap_inv_def
proof (intro allI impI)
  fix i assume i: "i < length (h[p := x])" "0 < i"
  then have il: "i < length h" by simp
  have ne: "parent i \<noteq> i" using parent_less [OF i(2)] by simp
  show "entry_leq (h[p := x] ! (parent i)) (h[p := x] ! i)"
  proof (cases "i = p")
    case True
    with assms(2,3) i ne show ?thesis by (simp add: nth_list_update)
  next
    case ip: False
    show ?thesis
    proof (cases "parent i = p")
      case True
      with assms(2,4) il i ip show ?thesis by (simp add: nth_list_update)
    next
      case False
      with assms(1) il i ip show ?thesis by (simp add: hole_inv_def nth_list_update)
    qed
  qed
qed

lemma hole_inv_up:
  assumes "hole_inv h p" "0 < p" "p < length h"
  shows "hole_inv (h[p := h ! (parent p)]) (parent p)"
  unfolding hole_inv_def
proof (intro allI impI)
  let ?pp = "parent p"
  let ?h = "h[p := h ! ?pp]"
  fix i assume "i < length ?h" and i: "0 < i \<and> i \<noteq> ?pp"
  then have il: "i < length h" by simp
  have pp: "?pp < p" using assms(2) by (rule parent_less)
  have ppp: "0 < ?pp \<Longrightarrow> parent ?pp < ?pp" by (rule parent_less)
  have gp: "0 < ?pp \<Longrightarrow> entry_leq (h ! (parent ?pp)) (h ! ?pp)"
    using assms(1) pp assms(3) ppp unfolding hole_inv_def
    by (metis (no_types, lifting) less_trans nat_neq_iff)
  show "if parent i = ?pp
        then 0 < ?pp \<longrightarrow> entry_leq (?h ! (parent ?pp)) (?h ! i)
        else entry_leq (?h ! (parent i)) (?h ! i)"
  proof (cases "parent i = ?pp")
    case True
    show ?thesis
    proof (cases "i = p")
      case True
      with \<open>parent i = ?pp\<close> gp pp ppp assms(3) show ?thesis
        by (auto simp: nth_list_update)
    next
      case False
      have "entry_leq (h ! ?pp) (h ! i)"
        using assms(1) il i False True pp unfolding hole_inv_def
        by (metis nat_neq_iff)
      with gp have "0 < ?pp \<Longrightarrow> entry_leq (h ! (parent ?pp)) (h ! i)"
        by (blast intro: entry_leq_trans)
      with True False pp ppp show ?thesis
        by (auto simp: nth_list_update)
    qed
  next
    case np: False
    then have ip: "i \<noteq> p" by auto
    show ?thesis
    proof (cases "parent i = p")
      case True
      with assms(1,2) il i ip have "entry_leq (h ! ?pp) (h ! i)"
        unfolding hole_inv_def by auto
      with True np ip assms(3) show ?thesis by (simp add: nth_list_update)
    next
      case False
      with assms(1) il i ip have "entry_leq (h ! (parent i)) (h ! i)"
        unfolding hole_inv_def by auto
      with False np ip show ?thesis by (simp add: nth_list_update)
    qed
  qed
qed

lemma children_up:
  assumes "hole_inv h p" "0 < p" "p < length h" "entry_less x (h ! (parent p))"
  shows "\<forall>c<length h. 0 < c \<and> parent c = parent p \<longrightarrow>
           entry_leq x (h[p := h ! (parent p)] ! c)"
proof (intro allI impI)
  let ?pp = "parent p"
  fix c assume c: "c < length h" "0 < c \<and> parent c = ?pp"
  have pp: "?pp < p" using assms(2) by (rule parent_less)
  show "entry_leq x (h[p := h ! ?pp] ! c)"
  proof (cases "c = p")
    case True
    with assms(3,4) show ?thesis by (simp add: entry_less_leq)
  next
    case False
    have "c \<noteq> ?pp" using c parent_less [of c] by auto
    have "entry_leq (h ! ?pp) (h ! c)"
      using assms(1) c False pp unfolding hole_inv_def
      by (metis nat_neq_iff)
    with assms(4) have "entry_leq x (h ! c)"
      by (blast intro: entry_leq_trans entry_less_leq)
    with False show ?thesis by simp
  qed
qed

lemma siftdown_loop_heap:
  assumes "all_comparable (insert x (set h))" "p < length h" "hole_inv h p"
    and "\<forall>c<length h. 0 < c \<and> parent c = p \<longrightarrow> entry_leq x (h ! c)"
  shows "\<exists>h'. siftdown_loop h 0 p x = Inr h' \<and> heap_inv h'"
  using assms
proof (induction p arbitrary: h rule: less_induct)
  case (less p)
  show ?case
  proof (cases "0 < p")
    case False
    then have "siftdown_loop h 0 p x = Inr (h[p := x])"
      by (simp add: siftdown_loop.simps)
    moreover have "heap_inv (h[p := x])"
      using less.prems False by (intro heap_inv_fill) auto
    ultimately show ?thesis by simp
  next
    case True
    let ?pp = "parent p"
    have pp: "?pp < p" using True by (rule parent_less)
    then have ppl: "?pp < length h" using less.prems(2) by simp
    have lt: "entry_lt x (h ! ?pp) = Inr (entry_less x (h ! ?pp))"
      using less.prems(1) ppl by (intro all_comparableD [of "insert x (set h)"]) auto
    show ?thesis
    proof (cases "entry_less x (h ! ?pp)")
      case False
      then have "siftdown_loop h 0 p x = Inr (h[p := x])"
        using True lt by (subst siftdown_loop.simps) (simp add: parent_def Let_def)
      moreover have "heap_inv (h[p := x])"
        using less.prems False by (intro heap_inv_fill) (auto simp: entry_leq_def)
      ultimately show ?thesis by simp
    next
      case l: True
      let ?h = "h[p := h ! ?pp]"
      have step: "siftdown_loop h 0 p x = siftdown_loop ?h 0 ?pp x"
        using True lt l by (subst siftdown_loop.simps) (simp add: parent_def Let_def)
      have "set ?h \<subseteq> set h"
        using set_update_subset_insert [of h p "h ! ?pp"] ppl by auto
      then have 1: "all_comparable (insert x (set ?h))"
        using less.prems(1) by (auto intro: all_comparable_subset)
      have 2: "?pp < length ?h" using ppl by simp
      have 3: "hole_inv ?h ?pp"
        using less.prems(3) True less.prems(2) by (rule hole_inv_up)
      have 4: "\<forall>c<length ?h. 0 < c \<and> parent c = ?pp \<longrightarrow> entry_leq x (?h ! c)"
        using children_up [OF less.prems(3) True less.prems(2) l] by simp
      from less.IH [OF pp 1 2 3 4] step show ?thesis by simp
    qed
  qed
qed

lemma parent_child: "0 < s \<Longrightarrow> parent s = p \<longleftrightarrow> s = 2 * p + 1 \<or> s = 2 * p + 2"
  unfolding parent_def by arith

lemma hole_inv_down:
  assumes "hole_inv h p" "c < length h" "0 < c" "parent c = p"
    and "\<forall>s<length h. 0 < s \<and> parent s = p \<longrightarrow> entry_leq (h ! c) (h ! s)"
  shows "hole_inv (h[p := h ! c]) c"
  unfolding hole_inv_def
proof (intro allI impI)
  let ?h = "h[p := h ! c]"
  fix i assume "i < length ?h" and i: "0 < i \<and> i \<noteq> c"
  then have il: "i < length h" by simp
  have pc: "p < c" using assms(3,4) parent_less by auto
  then have pl: "p < length h" using assms(2) by simp
  show "if parent i = c then 0 < c \<longrightarrow> entry_leq (?h ! parent c) (?h ! i)
        else entry_leq (?h ! parent i) (?h ! i)"
  proof (cases "parent i = c")
    case True
    then have "i \<noteq> p" using pc parent_less [of i] i by auto
    moreover have "entry_leq (h ! c) (h ! i)"
      using assms(1) il i True pc \<open>i \<noteq> p\<close> unfolding hole_inv_def
      by (metis nat_neq_iff)
    ultimately show ?thesis
      using True assms(4) pl by simp
  next
    case nc: False
    show ?thesis
    proof (cases "i = p")
      case True
      then have "0 < p" using i by simp
      then have "entry_leq (h ! parent p) (h ! c)"
        using assms(1,2,3,4) pc unfolding hole_inv_def
        by (metis nat_neq_iff)
      moreover have "parent p \<noteq> p" using parent_less [OF \<open>0 < p\<close>] by simp
      ultimately show ?thesis
        using True nc pl by simp
    next
      case ip: False
      show ?thesis
      proof (cases "parent i = p")
        case True
        with assms(5) il i have "entry_leq (h ! c) (h ! i)" by simp
        with True nc ip pl show ?thesis by simp
      next
        case False
        with assms(1) il i ip have "entry_leq (h ! parent i) (h ! i)"
          unfolding hole_inv_def by auto
        with False nc ip show ?thesis by simp
      qed
    qed
  qed
qed

lemma siftup_loop_heap:
  assumes "all_comparable (set h)" "p < length h" "hole_inv h p"
  shows "\<exists>h' l. siftup_loop h p = Inr (h', l) \<and> hole_inv h' l \<and> set h' \<subseteq> set h"
  using assms
proof (induction h p rule: siftup_loop.induct)
  case (1 heap pos)
  let ?c = "2 * pos + 1"
  have kids: "0 < s \<Longrightarrow> parent s = pos \<longleftrightarrow> s = ?c \<or> s = ?c + 1" for s
    using parent_child [of s pos] by auto
  show ?case
  proof (cases "?c < length heap")
    case False
    then have "siftup_loop heap pos = Inr (heap, pos)"
      by (subst siftup_loop.simps) (simp add: Let_def)
    with "1.prems" show ?thesis by simp
  next
    case c: True
    have pc: "parent ?c = pos" using kids [of ?c] by simp
    show ?thesis
    proof (cases "?c + 1 < length heap")
      case False
      let ?h = "heap[pos := heap ! ?c]"
      have step: "siftup_loop heap pos = siftup_loop ?h ?c"
        using c False by (subst siftup_loop.simps) (simp add: Let_def)
      have sub: "set ?h \<subseteq> set heap"
        using set_update_subset_insert [of heap pos "heap ! ?c"] c by auto
      have "\<forall>s<length heap. 0 < s \<and> parent s = pos \<longrightarrow> entry_leq (heap ! ?c) (heap ! s)"
      proof (intro allI impI)
        fix s assume s: "s < length heap" "0 < s \<and> parent s = pos"
        then have "s = ?c \<or> s = ?c + 1" using kids by blast
        with False s(1) have "s = ?c" by auto
        then show "entry_leq (heap ! ?c) (heap ! s)" by (simp add: entry_leq_refl)
      qed
      then have hi: "hole_inv ?h ?c"
        using "1.prems"(3) c pc by (intro hole_inv_down) auto
      have "\<exists>h' l. siftup_loop ?h ?c = Inr (h', l) \<and> hole_inv h' l \<and> set h' \<subseteq> set ?h"
        using "1.IH"(2) [OF refl refl c refl False] all_comparable_subset [OF "1.prems"(1) sub] c hi
        by simp
      with step sub show ?thesis by auto
    next
      case rp: True
      have lt: "entry_lt (heap ! ?c) (heap ! (?c + 1)) = Inr (entry_less (heap ! ?c) (heap ! (?c + 1)))"
        using "1.prems"(1) c rp by (intro all_comparableD [of "set heap"]) auto
      let ?lt = "entry_less (heap ! ?c) (heap ! (?c + 1))"
      let ?d = "if \<not> ?lt then ?c + 1 else ?c"
      let ?h = "heap[pos := heap ! ?d]"
      have d: "?d < length heap" "0 < ?d" "parent ?d = pos"
        using c rp kids [of ?d] by auto
      have step: "siftup_loop heap pos = siftup_loop ?h ?d"
        using c rp lt by (subst siftup_loop.simps) (simp add: Let_def)
      have sub: "set ?h \<subseteq> set heap"
        using set_update_subset_insert [of heap pos "heap ! ?d"] d(1) by auto
      have "\<forall>s<length heap. 0 < s \<and> parent s = pos \<longrightarrow> entry_leq (heap ! ?d) (heap ! s)"
      proof (intro allI impI)
        fix s assume s: "s < length heap" "0 < s \<and> parent s = pos"
        then have "s = ?c \<or> s = ?c + 1" using kids by blast
        then show "entry_leq (heap ! ?d) (heap ! s)"
          by (auto simp: entry_leq_refl entry_less_leq) (simp add: entry_leq_def)
      qed
      then have hi: "hole_inv ?h ?d"
        using "1.prems"(3) d by (intro hole_inv_down) auto
      have "\<exists>h' l. siftup_loop ?h ?d = Inr (h', l) \<and> hole_inv h' l \<and> set h' \<subseteq> set ?h"
        using "1.IH"(1) [OF refl refl c refl rp lt refl] all_comparable_subset [OF "1.prems"(1) sub]
          d(1) hi
        by simp
      with step sub show ?thesis by auto
    qed
  qed
qed

lemma mset_siftdown: "siftdown h s p = Inr h' \<Longrightarrow> p < length h \<Longrightarrow> mset h' = mset h"
  using mset_siftdown_loop [of h s p "h ! p" h'] by (simp add: siftdown_def)

lemma siftup_Inr:
  assumes "siftup h p = Inr h'"
  obtains h1 l where "siftup_loop h p = Inr (h1, l)" "siftdown (h1[l := h ! p]) p l = Inr h'"
  using assms by (auto simp: siftup_def Let_def elim!: bind_err_InrE)

lemma mset_siftup:
  assumes "siftup h p = Inr h'" "p < length h"
  shows "mset h' = mset h"
proof -
  from assms(1) obtain h1 l where
    1: "siftup_loop h p = Inr (h1, l)" and 2: "siftdown (h1[l := h ! p]) p l = Inr h'"
    by (rule siftup_Inr)
  have sh: "length h1 = length h \<and> l < length h \<and> p \<le> l \<and> length h \<le> 2 * l + 1 \<and>
            (\<forall>x. mset (h1[l := x]) = mset (h[p := x]))"
    by (rule siftup_loop_shape [OF 1 assms(2)])
  then have l: "l < length h1" by simp
  from sh have m: "mset (h1[l := h ! p]) = mset (h[p := h ! p])" by blast
  from mset_siftdown [OF 2] l have "mset h' = mset (h1[l := h ! p])" by simp
  with m show ?thesis by simp
qed

lemma mset_heappush: "heappush h x = Inr h' \<Longrightarrow> mset h' = add_mset x (mset h)"
  using mset_siftdown [of "h @ [x]" 0 "length h" h'] by (simp add: heappush_def)

lemma heappop_Inr:
  assumes "heappop h = Inr (m, h')"
  shows "h \<noteq> [] \<and> m = h ! 0 \<and> mset h = add_mset m (mset h')"
proof -
  from assms have ne: "h \<noteq> []" by (auto simp: heappop_def)
  then have h: "h = butlast h @ [last h]" by simp
  show ?thesis
  proof (cases "butlast h = []")
    case True
    with assms ne h show ?thesis
      by (auto simp: heappop_def Let_def)
  next
    case False
    with assms ne have s: "siftup ((butlast h)[0 := last h]) 0 = Inr h'" and m: "m = butlast h ! 0"
      by (auto simp: heappop_def Let_def elim!: bind_err_InrE)
    from False have l0: "0 < length (butlast h)" by (metis length_greater_0_conv)
    have "mset h' = mset ((butlast h)[0 := last h])"
      using mset_siftup [OF s] l0 by simp
    also have "\<dots> = add_mset (last h) (mset (butlast h) - {#butlast h ! 0#})"
      using l0 by (simp add: mset_update)
    finally have "add_mset m (mset h') = add_mset (last h) (mset (butlast h))"
      using m l0 by simp
    moreover have "mset h = add_mset (last h) (mset (butlast h))"
      by (subst h) simp
    moreover have "m = h ! 0"
      using m l0 by (simp add: nth_butlast)
    ultimately show ?thesis using ne by simp
  qed
qed

lemma add_to_heap_Inr:
  assumes "add_to_heap h item K r = Inr h'"
  obtains h1 where "heappush h (score item, r, item) = Inr h1"
    and "if int (length h1) > K then \<exists>m. heappop h1 = Inr (m, h') else h' = h1"
  using assms by (auto simp: add_to_heap_def split: if_splits elim!: bind_err_InrE)

lemma mset_add_to_heap:
  assumes "add_to_heap h item K r = Inr h'"
  shows "mset h' \<subseteq># add_mset (score item, r, item) (mset h)"
proof -
  from assms obtain h1 where 1: "heappush h (score item, r, item) = Inr h1"
    and 2: "if int (length h1) > K then \<exists>m. heappop h1 = Inr (m, h') else h' = h1"
    by (rule add_to_heap_Inr)
  from mset_heappush [OF 1] have m1: "mset h1 = add_mset (score item, r, item) (mset h)" .
  show ?thesis
  proof (cases "int (length h1) > K")
    case True
    with 2 obtain m where "heappop h1 = Inr (m, h')" by auto
    from heappop_Inr [OF this] have "mset h1 = add_mset m (mset h')" by simp
    then have "mset h' \<subseteq># mset h1" by simp
    with m1 show ?thesis by simp
  next
    case False
    with 2 m1 show ?thesis by simp
  qed
qed

lemma set_add_to_heap:
  "add_to_heap h item K r = Inr h' \<Longrightarrow> set h' \<subseteq> insert (score item, r, item) (set h)"
  using set_mset_mono [OF mset_add_to_heap [of h item K r h']] by simp

lemma hole_inv_update_hole: "p < length h \<Longrightarrow> hole_inv (h[p := v]) p = hole_inv h p"
proof -
  assume pl: "p < length h"
  have "(if parent i = p then 0 < p \<longrightarrow> entry_leq (h[p := v] ! parent p) (h[p := v] ! i)
         else entry_leq (h[p := v] ! parent i) (h[p := v] ! i)) =
        (if parent i = p then 0 < p \<longrightarrow> entry_leq (h ! parent p) (h ! i)
         else entry_leq (h ! parent i) (h ! i))" if "i \<noteq> p" for i
    using that parent_less [of p] by (cases "0 < p") auto
  then show ?thesis
    unfolding hole_inv_def by auto
qed

lemma heap_inv_hole: "heap_inv h \<Longrightarrow> hole_inv h 0"
  unfolding heap_inv_def hole_inv_def by auto

lemma heappush_heap:
  assumes "all_comparable (insert x (set h))" "heap_inv h"
  shows "\<exists>h'. heappush h x = Inr h' \<and> heap_inv h'"
proof -
  let ?h = "h @ [x]"
  have 1: "all_comparable (insert x (set ?h))" using assms(1) by simp
  have "hole_inv ?h (length h)"
    unfolding hole_inv_def
  proof (intro allI impI)
    fix i assume "i < length ?h" and i: "0 < i \<and> i \<noteq> length h"
    then have il: "i < length h" by simp
    then have "parent i < length h" using parent_less [of i] i by simp
    with assms(2) il i show "if parent i = length h
        then 0 < length h \<longrightarrow> entry_leq (?h ! parent (length h)) (?h ! i)
        else entry_leq (?h ! parent i) (?h ! i)"
      by (simp add: heap_inv_def nth_append)
  qed
  moreover have "\<forall>c<length ?h. 0 < c \<and> parent c = length h \<longrightarrow> entry_leq x (?h ! c)"
  proof (intro allI impI)
    fix c assume "c < length ?h" "0 < c \<and> parent c = length h"
    with parent_less [of c] have False by simp
    then show "entry_leq x (?h ! c)" ..
  qed
  ultimately have "\<exists>h'. siftdown_loop ?h 0 (length h) x = Inr h' \<and> heap_inv h'"
    using 1 by (intro siftdown_loop_heap) auto
  then show ?thesis by (simp add: heappush_def siftdown_def)
qed

lemma siftup_root_heap:
  assumes "all_comparable (set h)" "h \<noteq> []" "hole_inv h 0"
  shows "\<exists>h'. siftup h 0 = Inr h' \<and> heap_inv h'"
proof -
  from assms(2) have l0: "0 < length h" by simp
  from siftup_loop_heap [OF assms(1) l0 assms(3)] obtain h1 l where
    1: "siftup_loop h 0 = Inr (h1, l)" and hi: "hole_inv h1 l" and sub: "set h1 \<subseteq> set h"
    by blast
  from siftup_loop_shape [OF 1 l0]
  have len: "length h1 = length h" and l: "l < length h" and leaf: "length h \<le> 2 * l + 1"
    by auto
  let ?h = "h1[l := h ! 0]"
  have "set ?h \<subseteq> insert (h ! 0) (set h1)" by (rule set_update_subset_insert)
  with sub l0 have "insert (h ! 0) (set ?h) \<subseteq> set h" by auto
  then have a: "all_comparable (insert (h ! 0) (set ?h))"
    using assms(1) all_comparable_subset by blast
  have b: "hole_inv ?h l" using hi l len by (simp add: hole_inv_update_hole)
  have c: "\<forall>c<length ?h. 0 < c \<and> parent c = l \<longrightarrow> entry_leq (h ! 0) (?h ! c)"
  proof (intro allI impI)
    fix c assume c: "c < length ?h" "0 < c \<and> parent c = l"
    then have "c = 2 * l + 1 \<or> c = 2 * l + 2" using parent_child [of c l] by simp
    with c(1) leaf len have False by auto
    then show "entry_leq (h ! 0) (?h ! c)" ..
  qed
  have "\<exists>h'. siftdown_loop ?h 0 l (h ! 0) = Inr h' \<and> heap_inv h'"
    using a b c l len by (intro siftdown_loop_heap) auto
  moreover have "?h ! l = h ! 0" using l len by simp
  ultimately show ?thesis
    using 1 by (simp add: siftup_def siftdown_def Let_def)
qed

lemma heappop_heap:
  assumes "all_comparable (set h)" "heap_inv h" "h \<noteq> []"
  shows "\<exists>h'. heappop h = Inr (h ! 0, h') \<and> heap_inv h'"
proof (cases "butlast h = []")
  case True
  with assms(3) have "h = [last h]" by (metis append_butlast_last_id append_Nil)
  then obtain x where "h = [x]" ..
  then have "heappop h = Inr (h ! 0, [])"
    by (simp add: heappop_def Let_def)
  then show ?thesis by (simp add: heap_inv_def)
next
  case False
  let ?b = "butlast h"
  let ?h = "?b[0 := last h]"
  have sub: "set ?h \<subseteq> set h"
    using set_update_subset_insert [of ?b 0 "last h"] assms(3) in_set_butlastD [of _ h]
    by auto
  have "heap_inv ?b"
    unfolding heap_inv_def
  proof (intro allI impI)
    fix i assume i: "i < length ?b" "0 < i"
    then have "parent i < length ?b" using parent_less [of i] by simp
    moreover have "i < length h" using i(1) by simp
    ultimately show "entry_leq (?b ! parent i) (?b ! i)"
      using assms(2) i by (simp add: nth_butlast heap_inv_def)
  qed
  then have "hole_inv ?b 0" by (rule heap_inv_hole)
  moreover have "0 < length ?b" using False by (metis length_greater_0_conv)
  ultimately have "hole_inv ?h 0" using hole_inv_update_hole [of 0 ?b "last h"] by blast
  moreover have "?h \<noteq> []" using False by simp
  ultimately obtain h' where "siftup ?h 0 = Inr h'" "heap_inv h'"
    using siftup_root_heap [of ?h] all_comparable_subset [OF assms(1) sub] by blast
  moreover have "?b ! 0 = h ! 0"
    using \<open>0 < length ?b\<close> by (intro nth_butlast)
  ultimately show ?thesis
    using False assms(3) by (simp add: heappop_def Let_def)
qed

lemma heap_root_min: "heap_inv h \<Longrightarrow> i < length h \<Longrightarrow> entry_leq (h ! 0) (h ! i)"
proof (induction i rule: less_induct)
  case (less i)
  show ?case
  proof (cases "0 < i")
    case False
    then show ?thesis by (simp add: entry_leq_refl)
  next
    case True
    have pl: "parent i < i" using True by (rule parent_less)
    then have "entry_leq (h ! 0) (h ! parent i)"
      using less.prems by (intro less.IH) auto
    moreover have "entry_leq (h ! parent i) (h ! i)"
      using less.prems True by (simp add: heap_inv_def)
    ultimately show ?thesis by (rule entry_leq_trans)
  qed
qed

section \<open>The bounded collector keeps the top K\<close>

lemma mset_subset_same_size:
  assumes "A \<subseteq># B" "size A = size B"
  shows "A = B"
proof -
  from assms(1) obtain C where "B = A + C" by (auto simp: mset_subset_eq_exists_conv)
  with assms(2) show ?thesis by simp
qed

lemma add_to_heap_collected:
  assumes K: "0 \<le> K" and c: "collected (nat K) es h"
    and ac: "all_comparable (insert (score item, r, item) (set es))"
  shows "\<exists>h'. add_to_heap h item K r = Inr h' \<and>
              collected (nat K) (es @ [(score item, r, item)]) h'"
proof -
  let ?e = "(score item, r, item)"
  from c have hi: "heap_inv h" and sub: "mset h \<subseteq># mset es"
    and len: "length h = min (nat K) (length es)"
    and low: "\<forall>x \<in># mset es - mset h. \<forall>y \<in> set h. entry_leq x y"
    by (simp_all add: collected_def)
  have ssub: "set h \<subseteq> set es" using set_mset_mono [OF sub] by simp
  then have "all_comparable (insert ?e (set h))"
    using ac by (auto intro: all_comparable_subset)
  from heappush_heap [OF this hi] obtain h1 where
    push: "heappush h ?e = Inr h1" and hi1: "heap_inv h1" by blast
  have m1: "mset h1 = add_mset ?e (mset h)" using push by (rule mset_heappush)
  then have l1: "length h1 = Suc (length h)" by (metis size_mset size_add_mset)
  have s1: "set h1 = insert ?e (set h)" using m1 by (metis set_mset_add_mset_insert set_mset_mset)
  show ?thesis
  proof (cases "int (length h1) > K")
    case False
    then have "length h < nat K" using l1 K by linarith
    with len have "length h = length es" by simp
    with sub have eq: "mset h = mset es" by (intro mset_subset_same_size) simp_all
    have "add_to_heap h item K r = Inr h1"
      using push False by (simp add: add_to_heap_def)
    moreover have "collected (nat K) (es @ [?e]) h1"
      using hi1 m1 eq l1 \<open>length h < nat K\<close> \<open>length h = length es\<close>
      by (simp add: collected_def)
    ultimately show ?thesis by blast
  next
    case True
    then have full: "length h = nat K" "nat K \<le> length es" using l1 K len by linarith+
    have "all_comparable (set h1)"
      using ac s1 ssub by (auto intro: all_comparable_subset)
    moreover have "h1 \<noteq> []" using l1 by auto
    ultimately obtain h' where pop: "heappop h1 = Inr (h1 ! 0, h')" and hi': "heap_inv h'"
      using heappop_heap [OF _ hi1] by blast
    let ?m = "h1 ! 0"
    have m': "mset h1 = add_mset ?m (mset h')" using heappop_Inr [OF pop] by simp
    have res: "add_to_heap h item K r = Inr h'"
      using push True pop by (simp add: add_to_heap_def)
    have min: "entry_leq ?m y" if "y \<in> set h1" for y
      using that heap_root_min [OF hi1] by (metis in_set_conv_nth)
    have sub': "mset h' \<subseteq># mset (es @ [?e])"
    proof -
      have "mset h' \<subseteq># mset h1" using m' by simp
      also have "\<dots> \<subseteq># mset (es @ [?e])" using m1 sub by simp
      finally show ?thesis .
    qed
    have len': "length h' = min (nat K) (length (es @ [?e]))"
    proof -
      have "Suc (length h') = length h1" using m' by (metis size_mset size_add_mset)
      with l1 full show ?thesis by simp
    qed
    obtain D where D: "mset es = D + mset h" "D = mset es - mset h"
      using sub by (metis subset_mset.diff_add add.commute)
    have drop: "mset (es @ [?e]) - mset h' = add_mset ?m D"
    proof -
      have "mset (es @ [?e]) = D + mset h1" using D(1) m1 by simp
      also have "\<dots> = add_mset ?m D + mset h'" using m' by simp
      finally show ?thesis by simp
    qed
    have low': "entry_leq x y" if x: "x \<in># mset (es @ [?e]) - mset h'" and y: "y \<in> set h'" for x y
    proof -
      have y1: "y \<in> set h1" using y m' by (metis set_mset_mset union_single_eq_member insert_iff set_mset_add_mset_insert)
      from x drop have "x = ?m \<or> x \<in># D" by auto
      then show ?thesis
      proof
        assume "x = ?m"
        with min [OF y1] show ?thesis by simp
      next
        assume xd: "x \<in># D"
        show ?thesis
        proof (cases "y \<in> set h")
          case True
          with low xd D(2) show ?thesis by simp
        next
          case False
          with y1 s1 have ye: "y = ?e" by auto
          have "?m \<noteq> ?e"
          proof
            assume "?m = ?e"
            with m' m1 have "mset h' = mset h" by simp
            then have "set h' = set h" by (metis set_mset_mset)
            with y False show False by simp
          qed
          moreover have "?m \<in> set h1" using \<open>h1 \<noteq> []\<close> by simp
          ultimately have "?m \<in> set h" using s1 by auto
          with low xd D(2) have "entry_leq x ?m" by simp
          moreover have "entry_leq ?m ?e" using min s1 by simp
          ultimately show ?thesis using ye by (blast intro: entry_leq_trans)
        qed
      qed
    qed
    have "collected (nat K) (es @ [?e]) h'"
      unfolding collected_def using hi' sub' len' low' by blast
    with res show ?thesis by blast
  qed
qed

lemma offer_all_collected:
  assumes "0 \<le> K" "collected (nat K) es h"
    and "all_comparable (set es \<union> entry_of ` set offers)"
  shows "\<exists>h'. offer_all offers K h = Inr h' \<and> collected (nat K) (es @ map entry_of offers) h'"
  using assms(2,3)
proof (induction offers arbitrary: es h)
  case Nil
  then show ?case by (simp add: offer_all_def)
next
  case (Cons offer offers)
  let ?e = "entry_of offer"
  have "all_comparable (insert (score (fst offer), snd offer, fst offer) (set es))"
    using Cons.prems(2) by (auto simp: entry_of_def intro: all_comparable_subset)
  from add_to_heap_collected [OF assms(1) Cons.prems(1) this]
  obtain h1 where 1: "add_to_heap h (fst offer) K (snd offer) = Inr h1"
    and 2: "collected (nat K) (es @ [?e]) h1"
    by (auto simp: entry_of_def)
  have "all_comparable (set (es @ [?e]) \<union> entry_of ` set offers)"
    using Cons.prems(2) by (auto intro: all_comparable_subset)
  from Cons.IH [OF 2 this] 1 show ?case
    by (simp add: offer_all_def)
qed

lemma collected_empty: "collected K [] []"
  by (simp add: collected_def heap_inv_def)

lemma fval_le_score_num: "is_number a \<Longrightarrow> is_number b \<Longrightarrow> score_num a \<le> score_num b \<Longrightarrow> fval_le a b"
  by (cases a; cases b) (auto simp: is_number_def score_num_def)

lemma all_comparable_is_number: "all_comparable S \<Longrightarrow> a \<in> S \<Longrightarrow> is_number (fst a)"
  by (auto simp: all_comparable_def comparable_def)

lemma comparable_offers_take: "comparable_offers offers \<Longrightarrow> comparable_offers (take n offers)"
  unfolding comparable_offers_def
  by (rule all_comparable_subset) (auto dest: in_set_takeD)

lemma offer_all_from_empty:
  assumes "0 \<le> K" "comparable_offers offers"
  shows "\<exists>h. offer_all offers K [] = Inr h \<and> collected (nat K) (map entry_of offers) h"
  using offer_all_collected [OF assms(1) collected_empty, of offers] assms(2)
  by (simp add: comparable_offers_def)

lemma drained_top_k:
  assumes c: "collected K (map entry_of offers) h" and ok: "comparable_offers offers"
  shows "descending (sort_and_strip h) \<and> top_k_of K (map fst offers) (sort_and_strip h)"
proof -
  let ?es = "map entry_of offers"
  let ?pay = "\<lambda>m :: entry. snd (snd m)"
  from c have sub: "mset h \<subseteq># mset ?es" and len: "length h = min K (length ?es)"
    and low: "\<forall>x \<in># mset ?es - mset h. \<forall>y \<in> set h. entry_leq x y"
    by (simp_all add: collected_def)
  have ac: "all_comparable (set ?es)" using ok by (simp add: comparable_offers_def)
  have ssub: "set h \<subseteq> set ?es" using set_mset_mono [OF sub] by simp
  have wf: "fst e = score (?pay e)" if "e \<in> set ?es" for e
    using that by (auto simp: entry_of_def)
  have num: "is_number (fst e)" if "e \<in> set ?es" for e
    using all_comparable_is_number [OF ac that] .
  have "sorted_wrt (\<lambda>a b. fval_le (fst b) (fst a)) (sorted_desc fst h)"
  proof (rule sorted_sorted_desc, rule ballI)
    fix y assume "y \<in> set h"
    with ssub have "y \<in> set ?es" by blast
    then show "is_number (fst y)" by (rule num)
  qed
  then have "sorted_wrt (\<lambda>a b. fval_le (score (?pay b)) (score (?pay a))) (sorted_desc fst h)"
  proof (rule sorted_wrt_mono_rel [rotated])
    fix a b assume "a \<in> set (sorted_desc fst h)" "b \<in> set (sorted_desc fst h)"
      and le: "fval_le (fst b) (fst a)"
    then have "a \<in> set ?es" "b \<in> set ?es" using ssub by (auto simp: set_sorted_desc)
    then have "fst a = score (?pay a)" "fst b = score (?pay b)" by (simp_all only: wf)
    with le show "fval_le (score (?pay b)) (score (?pay a))" by simp
  qed
  then have d: "descending (sort_and_strip h)"
    by (simp add: descending_def sort_and_strip_def sorted_wrt_map)
  have out: "mset (sort_and_strip h) = image_mset ?pay (mset h)"
    by (simp add: sort_and_strip_def mset_sorted_desc)
  have off: "mset (map fst offers) = image_mset ?pay (mset ?es)"
    by (simp add: entry_of_def multiset.map_comp comp_def)
  have 1: "mset (sort_and_strip h) \<subseteq># mset (map fst offers)"
    unfolding out off using sub by (rule image_mset_subseteq_mono)
  have 2: "length (sort_and_strip h) = min K (length (map fst offers))"
    using len by (simp add: sort_and_strip_def length_sorted_desc)
  have diff: "mset (map fst offers) - mset (sort_and_strip h) = image_mset ?pay (mset ?es - mset h)"
    unfolding out off using sub by (simp add: image_mset_Diff)
  have 3: "fval_le (score x) (score y)"
    if x: "x \<in># mset (map fst offers) - mset (sort_and_strip h)" and y: "y \<in> set (sort_and_strip h)"
    for x y
  proof -
    from x diff obtain x' where x': "x' \<in># mset ?es - mset h" "x = ?pay x'" by auto
    from y obtain y' where y': "y' \<in> set h" "y = ?pay y'"
      by (auto simp: sort_and_strip_def set_sorted_desc)
    have xe: "x' \<in> set ?es" using x'(1) by (meson in_diffD in_multiset_in_set)
    have ye: "y' \<in> set ?es" using y'(1) ssub by auto
    from low x'(1) y'(1) have "entry_leq x' y'" by blast
    then have "score_num (fst x') \<le> score_num (fst y')" by (rule entry_leq_score)
    then have "fval_le (fst x') (fst y')"
      using num [OF xe] num [OF ye] by (intro fval_le_score_num)
    then show ?thesis using wf [OF xe] wf [OF ye] x'(2) y'(2) by simp
  qed
  from 1 2 3 have "top_k_of K (map fst offers) (sort_and_strip h)"
    unfolding top_k_of_def by blast
  with d show ?thesis ..
qed

text \<open>
  C2, amended. For every capacity \<open>K \<ge> 1\<close> and every finite sequence of calls of
  \<^verbatim>\<open>add_to_heap\<close> with \<open>max_length = K\<close>, starting from the empty heap, in which the scores
  are numbers (not NaN) and no two different items come with the same score and the same
  random number: no call raises, after every call the heap holds at most \<open>K\<close> entries,
  and the final sort returns a list that is non-increasing in score and is a top \<open>K\<close> by
  score of all offered items.
\<close>

theorem bounded_collector_top_k:
  assumes "1 \<le> K" and "comparable_offers offers"
  shows "(\<forall>n. \<exists>h. offer_all (take n offers) K [] = Inr h \<and> length h \<le> nat K) \<and>
         (\<exists>h. offer_all offers K [] = Inr h \<and> length h \<le> nat K \<and>
              descending (sort_and_strip h) \<and>
              top_k_of (nat K) (map fst offers) (sort_and_strip h))"
proof (intro conjI allI)
  from assms(1) have K: "0 \<le> K" by simp
  fix n
  from offer_all_from_empty [OF K comparable_offers_take [OF assms(2), of n]]
  obtain h where "offer_all (take n offers) K [] = Inr h"
    and "collected (nat K) (map entry_of (take n offers)) h" by blast
  then show "\<exists>h. offer_all (take n offers) K [] = Inr h \<and> length h \<le> nat K"
    by (auto simp: collected_def)
next
  from assms(1) have K: "0 \<le> K" by simp
  from offer_all_from_empty [OF K assms(2)]
  obtain h where 1: "offer_all offers K [] = Inr h"
    and 2: "collected (nat K) (map entry_of offers) h" by blast
  from 2 have "length h \<le> nat K" by (simp add: collected_def)
  with 1 drained_top_k [OF 2 assms(2)]
  show "\<exists>h. offer_all offers K [] = Inr h \<and> length h \<le> nat K \<and>
              descending (sort_and_strip h) \<and>
              top_k_of (nat K) (map fst offers) (sort_and_strip h)"
    by blast
qed

lemma example_offers_comparable: "comparable_offers example_offers"
  by (simp add: comparable_offers_def example_offers_def all_comparable_def comparable_def
      entry_of_def is_number_def)

lemma example_offer_all:
  "offer_all example_offers 2 [] =
     Inr [(Num (3 / 4), 1 / 5, \<lparr>appid = 4, name = ''D'', match_type = ''review'', score = Num (3 / 4)\<rparr>),
          (Num 1, 1 / 4, \<lparr>appid = 3, name = ''C'', match_type = ''review'', score = Num 1\<rparr>)]"
  by (simp add: offer_all_def example_offers_def add_to_heap_def heappush_def heappop_def
      siftdown_def siftup_def siftdown_loop.simps siftup_loop.simps entry_lt_def Let_def)

lemma example_sort_and_strip:
  "sort_and_strip
     [(Num (3 / 4), 1 / 5, \<lparr>appid = 4, name = ''D'', match_type = ''review'', score = Num (3 / 4)\<rparr>),
      (Num 1, 1 / 4, \<lparr>appid = 3, name = ''C'', match_type = ''review'', score = Num 1\<rparr>)] =
     [\<lparr>appid = 3, name = ''C'', match_type = ''review'', score = Num 1\<rparr>,
      \<lparr>appid = 4, name = ''D'', match_type = ''review'', score = Num (3 / 4)\<rparr>]"
  by (simp add: sort_and_strip_def sorted_desc_def)

theorem bounded_collector_top_k_witness:
  "(1::int) \<le> 2 \<and> comparable_offers example_offers \<and>
   offer_all example_offers 2 [] =
     Inr [(Num (3 / 4), 1 / 5, \<lparr>appid = 4, name = ''D'', match_type = ''review'', score = Num (3 / 4)\<rparr>),
          (Num 1, 1 / 4, \<lparr>appid = 3, name = ''C'', match_type = ''review'', score = Num 1\<rparr>)] \<and>
   descending
     [\<lparr>appid = 3, name = ''C'', match_type = ''review'', score = Num 1\<rparr>,
      \<lparr>appid = 4, name = ''D'', match_type = ''review'', score = Num (3 / 4)\<rparr>] \<and>
   top_k_of (nat 2) (map fst example_offers)
     [\<lparr>appid = 3, name = ''C'', match_type = ''review'', score = Num 1\<rparr>,
      \<lparr>appid = 4, name = ''D'', match_type = ''review'', score = Num (3 / 4)\<rparr>]"
  using bounded_collector_top_k [of 2 example_offers] example_offers_comparable
    example_offer_all example_sort_and_strip
  by simp

text \<open>
  Against C2: offered a NaN score between two numbers, the collector of capacity 1 ends
  with the item of score 0.1 although 0.9 was offered; and two offers that agree in score
  and random number but not in the item make \<^verbatim>\<open>add_to_heap\<close> raise TypeError.
\<close>

theorem bounded_collector_nan_or_tie:
  "offer_all nan_offers 1 [] =
     Inr [(Num (1 / 10), 1 / 4,
           \<lparr>appid = 3, name = ''C'', match_type = ''description'', score = Num (1 / 10)\<rparr>)] \<and>
   sort_and_strip
     [(Num (1 / 10), 1 / 4,
       \<lparr>appid = 3, name = ''C'', match_type = ''description'', score = Num (1 / 10)\<rparr>)] =
     [\<lparr>appid = 3, name = ''C'', match_type = ''description'', score = Num (1 / 10)\<rparr>] \<and>
   \<not> top_k_of 1 (map fst nan_offers)
       [\<lparr>appid = 3, name = ''C'', match_type = ''description'', score = Num (1 / 10)\<rparr>] \<and>
   offer_all tied_offers 2 [] = Inl TypeError"
proof -
  have 1: "offer_all nan_offers 1 [] =
     Inr [(Num (1 / 10), 1 / 4,
           \<lparr>appid = 3, name = ''C'', match_type = ''description'', score = Num (1 / 10)\<rparr>)]"
    by (simp add: offer_all_def nan_offers_def add_to_heap_def heappush_def heappop_def
        siftdown_def siftup_def siftdown_loop.simps siftup_loop.simps entry_lt_def Let_def)
  have 2: "offer_all tied_offers 2 [] = Inl TypeError"
    by (simp add: offer_all_def tied_offers_def add_to_heap_def heappush_def heappop_def
        siftdown_def siftup_def siftdown_loop.simps siftup_loop.simps entry_lt_def Let_def)
  have 3: "\<not> top_k_of 1 (map fst nan_offers)
       [\<lparr>appid = 3, name = ''C'', match_type = ''description'', score = Num (1 / 10)\<rparr>]"
    by (simp add: top_k_of_def nan_offers_def)
  from 1 2 3 show ?thesis
    by (simp add: sort_and_strip_def sorted_desc_def)
qed

section \<open>Self-exclusion\<close>

lemma foldM_err_invariant:
  assumes "foldM_err f xs s = Inr s'" "P s"
    and "\<And>s a s'. P s \<Longrightarrow> a \<in> set xs \<Longrightarrow> f s a = Inr s' \<Longrightarrow> P s'"
  shows "P s'"
  using assms
proof (induction xs arbitrary: s)
  case Nil
  then show ?case by simp
next
  case (Cons x xs)
  from Cons.prems(1) obtain s1 where 1: "f s x = Inr s1" and 2: "foldM_err f xs s1 = Inr s'"
    by (auto elim!: bind_err_InrE)
  have s1: "P s1" by (rule Cons.prems(3) [OF Cons.prems(2) _ 1]) simp
  show ?case
  proof (rule Cons.IH [OF 2 s1])
    fix t a t' assume "P t" "a \<in> set xs" "f t a = Inr t'"
    then show "P t'" using Cons.prems(3) [of t a t'] by simp
  qed
qed

lemma description_step_entries:
  assumes "description_step E q k st (a, embs) = Inr st'"
  shows "\<forall>e \<in> set (fst st'). e \<in> set (fst st) \<or> appid (snd (snd e)) = a"
proof -
  obtain matches n where st: "st = (matches, n)" by (cases st)
  from assms obtain s h where h: "add_to_heap matches
      \<lparr>appid = a, name = get_name_for_appid E a, match_type = ''description'', score = s\<rparr>
      k (random E n) = Inr h" and st': "st' = (h, Suc n)"
    by (auto simp: description_step_def st elim!: bind_err_InrE)
  from set_add_to_heap [OF h] st st' show ?thesis by auto
qed

lemma review_step_entries:
  assumes "review_step E q k st a = Inr st'"
  shows "\<forall>e \<in> set (fst st'). e \<in> set (fst st) \<or> appid (snd (snd e)) = a"
proof -
  obtain matches n where st: "st = (matches, n)" by (cases st)
  from assms obtain s h where h: "add_to_heap matches
      \<lparr>appid = a, name = get_name_for_appid E a, match_type = ''review'', score = s\<rparr>
      k (random E n) = Inr h" and st': "st' = (h, Suc n)"
    by (auto simp: review_step_def st Let_def elim!: bind_err_InrE)
  from set_add_to_heap [OF h] st st' show ?thesis by auto
qed

lemma set_sort_and_strip: "set (sort_and_strip h) = (\<lambda>e. snd (snd e)) ` set h"
  by (simp add: sort_and_strip_def set_sorted_desc)

lemma search_similar_excludes:
  assumes "search_similar E x t k = Inr ms"
  shows "x \<notin> appid ` set ms"
proof -
  let ?P = "\<lambda>st :: entry list \<times> nat. \<forall>e \<in> set (fst st). appid (snd (snd e)) \<noteq> x"
  let ?dstep = "\<lambda>qe st page_item.
                    if fst page_item = x then Inr st
                    else description_step E qe k st page_item"
  let ?rstep = "\<lambda>qe st current_appid.
                        if current_appid = x then Inr st
                        else review_step E qe k st current_appid"
  have d: "?P s'" if "?P s" "?dstep qe s a = Inr s'" for qe s a s'
  proof (cases "fst a = x")
    case True
    with that show ?thesis by simp
  next
    case False
    with that(2) have "description_step E qe k s (fst a, snd a) = Inr s'" by simp
    from description_step_entries [OF this] that(1) False show ?thesis by auto
  qed
  have r: "?P s'" if "?P s" "?rstep qe s a = Inr s'" for qe s a s'
  proof (cases "a = x")
    case True
    with that show ?thesis by simp
  next
    case False
    with that(2) have "review_step E qe k s a = Inr s'" by simp
    from review_step_entries [OF this] that(1) False show ?thesis by auto
  qed
  from assms obtain st1 st2 where
    1: "(if t = ''all'' \<or> t = ''description''
        then
          bind_err (mean_pooling (get_description_embeddings_for_appid E x))
            (\<lambda>query_embed.
               foldM_err (?dstep query_embed)
                 (concat (get_paginated_embeddings_for_descriptions E)) ([], 0))
        else Inr ([], 0)) = Inr st1"
    and 2: "(if t = ''all'' \<or> t = ''review''
        then
          (let query_review_embeddings = get_review_embeddings_for_appid E x;
               query_flat_embeddings = concat (map snd query_review_embeddings)
           in bind_err (mean_pooling query_flat_embeddings)
                (\<lambda>query_embed.
                   foldM_err (?rstep query_embed)
                     (get_appids_with_review_embeds E) st1))
        else Inr st1) = Inr st2"
    and 3: "ms = sort_and_strip (fst st2)"
    unfolding search_similar_def by (auto elim!: bind_err_InrE)
  have p0: "?P ([], 0)" by simp
  have p1: "?P st1"
  proof (cases "t = ''all'' \<or> t = ''description''")
    case True
    with 1 obtain qe where
      "foldM_err (?dstep qe) (concat (get_paginated_embeddings_for_descriptions E)) ([], 0) = Inr st1"
      by (auto elim!: bind_err_InrE)
    from this p0 show ?thesis
      by (rule foldM_err_invariant [where P = ?P]) (rule d)
  next
    case False
    with 1 show ?thesis by auto
  qed
  have p2: "?P st2"
  proof (cases "t = ''all'' \<or> t = ''review''")
    case True
    with 2 obtain qe where
      "foldM_err (?rstep qe) (get_appids_with_review_embeds E) st1 = Inr st2"
      by (auto simp: Let_def elim!: bind_err_InrE)
    from this p1 show ?thesis
      by (rule foldM_err_invariant [where P = ?P]) (rule r)
  next
    case False
    with 2 p1 show ?thesis by auto
  qed
  with 3 show ?thesis by (auto simp: set_sort_and_strip)
qed

lemma index_search_similar_excludes:
  assumes "index_search_similar E x t k = Inr ms"
  shows "x \<notin> appid ` set ms"
proof -
  from assms obtain ds rs where
    "ms = slice_to k (sorted_desc score
            (merged_of E (filter (\<lambda>r. fst r \<noteq> x) ds) (filter (\<lambda>r. fst r \<noteq> x) rs)))"
    by (rule index_search_similar_eq)
  moreover have "set (slice_to k (sorted_desc score
            (merged_of E (filter (\<lambda>r. fst r \<noteq> x) ds) (filter (\<lambda>r. fst r \<noteq> x) rs)))) \<subseteq>
        set (sorted_desc score
            (merged_of E (filter (\<lambda>r. fst r \<noteq> x) ds) (filter (\<lambda>r. fst r \<noteq> x) rs)))"
    by (rule set_slice_to)
  ultimately have "set ms \<subseteq> set (merged_of E (filter (\<lambda>r. fst r \<noteq> x) ds) (filter (\<lambda>r. fst r \<noteq> x) rs))"
    by (simp add: set_sorted_desc)
  then show ?thesis by (auto simp: merged_of_def)
qed

text \<open>
  C3. Whatever the source entity, the match types and the limit: a list returned by
  \<^verbatim>\<open>index_search_similar\<close> (index path) or by \<^verbatim>\<open>search_similar\<close> (exhaustive path) never
  contains the source entity itself.
\<close>

theorem similar_excludes_source:
  "(index_search_similar E x t k = Inr ms \<longrightarrow> x \<notin> appid ` set ms) \<and>
   (search_similar E x t k' = Inr ms' \<longrightarrow> x \<notin> appid ` set ms')"
proof (intro conjI impI)
  assume "index_search_similar E x t k = Inr ms"
  then show "x \<notin> appid ` set ms" by (rule index_search_similar_excludes)
next
  assume "search_similar E x t k' = Inr ms'"
  then show "x \<notin> appid ` set ms'" by (rule search_similar_excludes)
qed

lemma example_cosines:
  "cosine_similarity (Vec [1, 0]) (Vec [1, 0]) = Inr (Flt (Num 1))"
  "cosine_similarity (Vec [0, 1]) (Vec [1, 0]) = Inr (Flt (Num 0))"
  by (simp_all add: example_norm np_dot_def)

lemma example_env_fields:
  "get_paginated_embeddings_for_descriptions example_env =
     [[(1, [[1, 0]]), (2, [[0, 1]])], [(3, [[1, 0], [0, 1]])]]"
  "get_description_embeddings_for_appid example_env 1 = [[1, 0]]"
  "get_appids_with_review_embeds example_env = [1, 2]"
  "get_review_embeddings_for_appid example_env 1 = [(10, [[1, 0]]), (11, [[1, 0]])]"
  "get_review_embeddings_for_appid example_env 2 = [(12, [[0, 1]])]"
  "get_name_for_appid example_env 2 = ''B''"
  "get_name_for_appid example_env 3 = ''C''"
  "random example_env n = 1 / (2 + real n)"
  by (simp_all add: example_env_def)

lemmas heap_eval = add_to_heap_def heappush_def heappop_def siftdown_def siftup_def
  siftdown_loop.simps siftup_loop.simps entry_lt_def Let_def

lemma example_description_steps:
  "description_step example_env (Vec [1, 0]) 2 ([], 0) (2, [[0, 1]]) =
     Inr ([(Num 0, 1 / 2, \<lparr>appid = 2, name = ''B'', match_type = ''description'', score = Num 0\<rparr>)], Suc 0)"
  "description_step example_env (Vec [1, 0]) 2
     ([(Num 0, 1 / 2, \<lparr>appid = 2, name = ''B'', match_type = ''description'', score = Num 0\<rparr>)], Suc 0)
     (3, [[1, 0], [0, 1]]) =
     Inr ([(Num 0, 1 / 2, \<lparr>appid = 2, name = ''B'', match_type = ''description'', score = Num 0\<rparr>),
           (Num 1, 1 / 3, \<lparr>appid = 3, name = ''C'', match_type = ''description'', score = Num 1\<rparr>)], Suc (Suc 0))"
  by (simp_all add: description_step_def compare_all_embeddings_take_max_def py_max_def
      example_norm np_dot_def example_env_fields heap_eval)

lemma example_review_step:
  "review_step example_env (Vec [1, 0]) 2
     ([(Num 0, 1 / 2, \<lparr>appid = 2, name = ''B'', match_type = ''description'', score = Num 0\<rparr>),
       (Num 1, 1 / 3, \<lparr>appid = 3, name = ''C'', match_type = ''description'', score = Num 1\<rparr>)], Suc (Suc 0))
     2 =
     Inr ([(Num 0, 1 / 2, \<lparr>appid = 2, name = ''B'', match_type = ''description'', score = Num 0\<rparr>),
           (Num 1, 1 / 3, \<lparr>appid = 3, name = ''C'', match_type = ''description'', score = Num 1\<rparr>)], Suc (Suc (Suc 0)))"
proof -
  have "mean_pooling [[0, 1]] = Inr (Vec [0, 1])" by (simp add: mean_pooling_def)
  then show ?thesis
    by (simp add: review_step_def example_norm np_dot_def example_env_fields heap_eval)
qed

lemma example_search_similar:
  "search_similar example_env 1 ''all'' 2 =
     Inr [\<lparr>appid = 3, name = ''C'', match_type = ''description'', score = Num 1\<rparr>,
          \<lparr>appid = 2, name = ''B'', match_type = ''description'', score = Num 0\<rparr>]"
  by (simp add: search_similar_def example_env_fields example_mean_pooling
      example_description_steps example_review_step sort_and_strip_def sorted_desc_def)

theorem similar_excludes_source_witness:
  "index_search_similar example_env 1 ''all'' 2 =
     Inr [\<lparr>appid = 3, name = ''C'', match_type = ''description'', score = Num (9 / 10)\<rparr>,
          \<lparr>appid = 2, name = ''B'', match_type = ''review'', score = Num (1 / 2)\<rparr>] \<and>
   1 \<notin> appid ` set
         [\<lparr>appid = 3, name = ''C'', match_type = ''description'', score = Num (9 / 10)\<rparr>,
          \<lparr>appid = 2, name = ''B'', match_type = ''review'', score = Num (1 / 2)\<rparr>] \<and>
   search_similar example_env 1 ''all'' 2 =
     Inr [\<lparr>appid = 3, name = ''C'', match_type = ''description'', score = Num 1\<rparr>,
          \<lparr>appid = 2, name = ''B'', match_type = ''description'', score = Num 0\<rparr>] \<and>
   1 \<notin> appid ` set
         [\<lparr>appid = 3, name = ''C'', match_type = ''description'', score = Num 1\<rparr>,
          \<lparr>appid = 2, name = ''B'', match_type = ''description'', score = Num 0\<rparr>]"
  using similar_excludes_source [of example_env 1 "''all''" 2
      "[\<lparr>appid = 3, name = ''C'', match_type = ''description'', score = Num (9 / 10)\<rparr>,
          \<lparr>appid = 2, name = ''B'', match_type = ''review'', score = Num (1 / 2)\<rparr>]" 2
      "[\<lparr>appid = 3, name = ''C'', match_type = ''description'', score = Num 1\<rparr>,
          \<lparr>appid = 2, name = ''B'', match_type = ''description'', score = Num 0\<rparr>]"]
    example_index_search_similar example_search_similar
  by simp

end
